theory Spec2Isabelle
  imports Complex_Main
begin

section \<open>Functional RMSprop: the data model\<close>

text \<open>
  The development embeds \<^verbatim>\<open>torch/distributed/optim/functional_rmsprop.py\<close>.

  Tensors are mutable objects with an identity. A tensor is an address of a store; its
  contents are the flattened list of its elements, and the length of that list stands for
  its shape. Element arithmetic is idealised: elements are real numbers, not floats, so
  there is no rounding, no infinity and no NaN. In HOL the square root of a negative number
  is negative and a division by zero gives zero; the results that depend on the numbers
  keep to arguments where neither occurs. \<^verbatim>\<open>torch.zeros_like\<close> and
  \<^verbatim>\<open>torch.tensor\<close> create a new object, which is an allocation at the next free
  address. Gradients are read and never written, and a call takes them by value; a
  gradient that is the very tensor object of a parameter or of a state buffer (an alias)
  is therefore outside the model. The one place where floating point is kept is the step
  counter, see \<open>f32_succ\<close> below.
\<close>

type_synonym addr = nat
type_synonym tensor = "real list"

record heap =
  cells :: "addr \<Rightarrow> tensor"
  next_free :: addr

definition alloc :: "tensor \<Rightarrow> heap \<Rightarrow> addr \<times> heap" where
  "alloc t h =
     (next_free h, h\<lparr>cells := (cells h)(next_free h := t), next_free := Suc (next_free h)\<rparr>)"

definition store :: "addr \<Rightarrow> tensor \<Rightarrow> heap \<Rightarrow> heap" where
  "store a t h = h\<lparr>cells := (cells h)(a := t)\<rparr>"

definition zeros_like :: "addr \<Rightarrow> heap \<Rightarrow> addr \<times> heap" where
  "zeros_like p h = alloc (replicate (length (cells h p)) 0) h"

text \<open>
  The two \<^verbatim>\<open>ValueError\<close>s of the source differ in their message only; the model keeps
  them apart by constructor, the second carrying the two lengths the message prints.
  \<^verbatim>\<open>IndexError\<close> and \<^verbatim>\<open>KeyError\<close> are what Python raises for a list index out of range
  and for a dictionary key that is missing; \<^verbatim>\<open>RuntimeError\<close> is what the tensor library
  raises when the shapes of the operands of an elementwise operation do not fit.
\<close>

datatype error =
    ValueError_empty_parameter_list
  | ValueError_gradients_length nat nat
  | IndexError
  | KeyError string
  | RuntimeError

text \<open>
  \<^verbatim>\<open>self.defaults\<close> is a dictionary built from a literal with five fixed keys and never
  changed afterwards: a record. The per-parameter dictionary of \<^verbatim>\<open>self.state\<close> always
  holds \<^verbatim>\<open>'step'\<close> and \<^verbatim>\<open>'square_avg'\<close>; the keys \<^verbatim>\<open>'momentum_buffer'\<close> and
  \<^verbatim>\<open>'grad_avg'\<close> may be missing, so these two fields are optional. All four are tensors,
  that is, addresses.
\<close>

record hyper =
  lr :: real
  alpha :: real
  eps :: real
  weight_decay :: real
  momentum :: real

record pstate =
  step_counter :: addr
  square_avg :: addr
  momentum_buffer :: "addr option"
  grad_avg :: "addr option"

record updater =
  defaults :: hyper
  centered :: bool
  params :: "addr list"
  state :: "addr \<rightharpoonup> pstate"

section \<open>Construction\<close>

text \<open>
  \<^verbatim>\<open>__init__\<close>: an exception leaves the caller without an object, so the result is
  either the error or the finished updater.
\<close>

definition init ::
  "addr list \<Rightarrow> real \<Rightarrow> real \<Rightarrow> real \<Rightarrow> real \<Rightarrow> real \<Rightarrow> bool \<Rightarrow> error + updater" where
  "init ps lr0 alpha0 eps0 weight_decay0 momentum0 centered0 =
     (if length ps = 0 then Inl ValueError_empty_parameter_list
      else Inr \<lparr>defaults = \<lparr>lr = lr0, alpha = alpha0, eps = eps0,
                             weight_decay = weight_decay0, momentum = momentum0\<rparr>,
                centered = centered0,
                params = ps,
                state = Map.empty\<rparr>)"

section \<open>The update kernel\<close>

text \<open>
  Modelled from the spec: \<^verbatim>\<open>torch.optim._functional.rmsprop\<close>, the kernel that
  \<^verbatim>\<open>step\<close> calls, is not among the sources. Its arguments are those of the call site:
  the parameter list, the gradients and the three lists of state buffers, then the
  configuration. The kernel walks the parameter list and takes the gradient and the buffers
  at the parameter's position; for each parameter it follows the specification's steps 3 to 7
  (weight decay, the running average of squares, centring, momentum, the write to the
  parameter). The specification says nothing about a list that is shorter than the
  parameter list; indexing a list past its end raises \<^verbatim>\<open>IndexError\<close> in Python, and that
  is the branch taken here. Buffers are updated in place, through the store. Elementwise
  operations pair the elements of two buffers by position; the specification only
  speaks of buffers of the same shape. When the lengths of the operands differ, the model
  raises \<^verbatim>\<open>RuntimeError\<close> at the operation and writes nothing there; broadcasting of a
  smaller operand is not modelled. The results below on state records and step counters
  range over all gradients and use of the kernel only that it writes to no tensor other
  than those it is given; the result on determinism uses that the kernel reads and writes
  the tensors it is given and no others, whatever their shapes; the results that depend on
  its numbers are evaluated on operands of the same shape.
\<close>

definition rmsprop_param ::
  "nat \<Rightarrow> addr \<Rightarrow> tensor list \<Rightarrow> addr list \<Rightarrow> addr list \<Rightarrow> addr list \<Rightarrow>
   hyper \<Rightarrow> bool \<Rightarrow> heap \<Rightarrow> error option \<times> heap" where
  "rmsprop_param i param gs sqs gas bufs cfg cen h =
     (if length gs \<le> i \<or> length sqs \<le> i then (Some IndexError, h)
      else if length (gs ! i) \<noteq> length (cells h param)
              \<or> length (cells h (sqs ! i)) \<noteq> length (cells h param)
      then (Some RuntimeError, h)
      else
        let grad = (if weight_decay cfg \<noteq> 0
                    then map2 (\<lambda>g p. g + weight_decay cfg * p) (gs ! i) (cells h param)
                    else gs ! i);
            sq = sqs ! i;
            h1 = store sq (map2 (\<lambda>s g. alpha cfg * s + (1 - alpha cfg) * (g * g))
                             (cells h sq) grad) h
        in
        if cen \<and> length gas \<le> i then (Some IndexError, h1)
        else if cen \<and> length (cells h1 (gas ! i)) \<noteq> length grad
        then (Some RuntimeError, h1)
        else
          let h2 = (if cen
                    then store (gas ! i)
                           (map2 (\<lambda>a g. alpha cfg * a + (1 - alpha cfg) * g)
                              (cells h1 (gas ! i)) grad) h1
                    else h1);
              avg = (if cen
                     then map2 (\<lambda>s a. sqrt (s - a * a) + eps cfg)
                            (cells h2 sq) (cells h2 (gas ! i))
                     else map (\<lambda>s. sqrt s + eps cfg) (cells h2 sq))
          in
          if momentum cfg > 0 then
            (if length bufs \<le> i then (Some IndexError, h2)
             else if length (cells h2 (bufs ! i)) \<noteq> length grad
             then (Some RuntimeError, h2)
             else
               let b = bufs ! i;
                   h3 = store b (map2 (\<lambda>m q. momentum cfg * m + q)
                                   (cells h2 b) (map2 (/) grad avg)) h2
               in (None, store param (map2 (\<lambda>p m. p - lr cfg * m)
                                        (cells h3 param) (cells h3 b)) h3))
          else
            (None, store param (map2 (\<lambda>p q. p - lr cfg * q)
                                  (cells h2 param) (map2 (/) grad avg)) h2))"

fun rmsprop_from ::
  "nat \<Rightarrow> addr list \<Rightarrow> tensor list \<Rightarrow> addr list \<Rightarrow> addr list \<Rightarrow> addr list \<Rightarrow>
   hyper \<Rightarrow> bool \<Rightarrow> heap \<Rightarrow> error option \<times> heap" where
  "rmsprop_from i [] gs sqs gas bufs cfg cen h = (None, h)"
| "rmsprop_from i (param # rest) gs sqs gas bufs cfg cen h =
     (case rmsprop_param i param gs sqs gas bufs cfg cen h of
        (Some e, h') \<Rightarrow> (Some e, h')
      | (None, h') \<Rightarrow> rmsprop_from (Suc i) rest gs sqs gas bufs cfg cen h')"

definition rmsprop ::
  "addr list \<Rightarrow> tensor list \<Rightarrow> addr list \<Rightarrow> addr list \<Rightarrow> addr list \<Rightarrow>
   real \<Rightarrow> real \<Rightarrow> real \<Rightarrow> real \<Rightarrow> real \<Rightarrow> bool \<Rightarrow> heap \<Rightarrow> error option \<times> heap" where
  "rmsprop ps gs sqs gas bufs lr0 alpha0 eps0 weight_decay0 momentum0 centered0 h =
     rmsprop_from 0 ps gs sqs gas bufs
       \<lparr>lr = lr0, alpha = alpha0, eps = eps0,
        weight_decay = weight_decay0, momentum = momentum0\<rparr> centered0 h"

section \<open>The step operation\<close>

text \<open>The four local lists that the loop of \<^verbatim>\<open>step\<close> fills.\<close>

record lists =
  grads :: "tensor list"
  square_avgs :: "addr list"
  grad_avgs :: "addr list"
  momentum_buffer_list :: "addr list"

text \<open>
  Lazy state initialisation (source lines 69 to 77), returning the dictionary that
  \<^verbatim>\<open>state = self.state[param]\<close> reads on line 79.
\<close>

definition lazy_init ::
  "real \<Rightarrow> bool \<Rightarrow> addr \<Rightarrow> (addr \<rightharpoonup> pstate) \<Rightarrow> heap \<Rightarrow> pstate \<times> (addr \<rightharpoonup> pstate) \<times> heap" where
  "lazy_init mom cen param st h =
     (case st param of
        Some r \<Rightarrow> (r, st, h)
      | None \<Rightarrow>
          (case alloc [0] h of (s, h1) \<Rightarrow>
           case zeros_like param h1 of (sq, h2) \<Rightarrow>
           case (if mom > 0
                 then (case zeros_like param h2 of (a, h') \<Rightarrow> (Some a, h'))
                 else (None, h2)) of (mb, h3) \<Rightarrow>
           case (if cen
                 then (case zeros_like param h3 of (a, h') \<Rightarrow> (Some a, h'))
                 else (None, h3)) of (ga, h4) \<Rightarrow>
           let r = \<lparr>step_counter = s, square_avg = sq,
                    momentum_buffer = mb, grad_avg = ga\<rparr>
           in (r, st(param \<mapsto> r), h4)))"

text \<open>
  The step counter is created by \<^verbatim>\<open>torch.tensor(0.0)\<close>, a tensor of 32-bit floats (the
  default element type), and \<^verbatim>\<open>state['step'] += 1\<close> adds 1 in that arithmetic. The
  whole numbers up to \<open>2^24 = 16777216\<close> are floats and the sum is exact below that
  bound; \<open>16777216 + 1\<close> is not a float and rounds back to \<open>16777216\<close>. This is the
  increment on the values a counter takes, the whole numbers from 0 to \<open>2^24\<close>.
\<close>

definition f32_succ :: "real \<Rightarrow> real" where
  "f32_succ x = (if x < 16777216 then x + 1 else x)"

text \<open>
  The body of the loop for one pair of \<^verbatim>\<open>zip(params, gradients)\<close>. A missing key
  raises in the middle of the loop; what has been written until then stays written.
\<close>

fun visit ::
  "real \<Rightarrow> bool \<Rightarrow> addr \<Rightarrow> tensor option \<Rightarrow> (addr \<rightharpoonup> pstate) \<times> heap \<times> lists \<Rightarrow>
   error option \<times> (addr \<rightharpoonup> pstate) \<times> heap \<times> lists" where
  "visit mom cen param None (st, h, ls) = (None, st, h, ls)"
| "visit mom cen param (Some g) (st, h, ls) =
     (case lazy_init mom cen param st h of (r, st1, h1) \<Rightarrow>
        let ls1 = ls\<lparr>grads := grads ls @ [g],
                     square_avgs := square_avgs ls @ [square_avg r]\<rparr>
        in
        (case (if mom > 0
              then (case momentum_buffer r of
                      None \<Rightarrow> Inl (KeyError ''momentum_buffer'')
                    | Some b \<Rightarrow>
                        Inr (ls1\<lparr>momentum_buffer_list := momentum_buffer_list ls1 @ [b]\<rparr>))
              else Inr ls1) of
          Inl e \<Rightarrow> (Some e, st1, h1, ls1)
        | Inr ls2 \<Rightarrow>
            (case (if cen
                   then (case grad_avg r of
                           None \<Rightarrow> Inl (KeyError ''grad_avg'')
                         | Some a \<Rightarrow> Inr (ls2\<lparr>grad_avgs := grad_avgs ls2 @ [a]\<rparr>))
                   else Inr ls2) of
               Inl e \<Rightarrow> (Some e, st1, h1, ls2)
             | Inr ls3 \<Rightarrow>
                 (None, st1,
                  store (step_counter r)
                    (map f32_succ (cells h1 (step_counter r))) h1,
                  ls3))))"

fun collect ::
  "real \<Rightarrow> bool \<Rightarrow> (addr \<times> tensor option) list \<Rightarrow> (addr \<rightharpoonup> pstate) \<times> heap \<times> lists \<Rightarrow>
   error option \<times> (addr \<rightharpoonup> pstate) \<times> heap \<times> lists" where
  "collect mom cen [] s = (None, s)"
| "collect mom cen ((param, gradient) # rest) s =
     (case visit mom cen param gradient s of
        (Some e, s') \<Rightarrow> (Some e, s')
      | (None, s') \<Rightarrow> collect mom cen rest s')"

text \<open>
  \<^verbatim>\<open>step\<close> returns nothing; its effects are on the updater's state dictionary and on
  the store. The result is the exception raised, if any, with the updater and the store
  as the call leaves them.
\<close>

definition step ::
  "updater \<Rightarrow> tensor option list \<Rightarrow> heap \<Rightarrow> error option \<times> updater \<times> heap" where
  "step u gradients h =
     (if length (params u) \<noteq> length gradients
      then (Some (ValueError_gradients_length (length (params u)) (length gradients)), u, h)
      else
        case collect (momentum (defaults u)) (centered u) (zip (params u) gradients)
               (state u, h,
                \<lparr>grads = [], square_avgs = [], grad_avgs = [], momentum_buffer_list = []\<rparr>) of
          (Some e, st, h1, ls) \<Rightarrow> (Some e, u\<lparr>state := st\<rparr>, h1)
        | (None, st, h1, ls) \<Rightarrow>
            (case rmsprop (params u) (grads ls) (square_avgs ls) (grad_avgs ls)
                    (momentum_buffer_list ls)
                    (lr (defaults u)) (alpha (defaults u)) (eps (defaults u))
                    (weight_decay (defaults u)) (momentum (defaults u)) (centered u) h1 of
               (e, h2) \<Rightarrow> (e, u\<lparr>state := st\<rparr>, h2)))"

text \<open>
  A sequence of calls on the same updater. A call that raises does not undo what it has
  written, so the next call starts from the state the previous one left.
\<close>

fun steps :: "updater \<Rightarrow> tensor option list list \<Rightarrow> heap \<Rightarrow> updater \<times> heap" where
  "steps u [] h = (u, h)"
| "steps u (gradients # rest) h =
     (case step u gradients h of (e, u', h') \<Rightarrow> steps u' rest h')"

section \<open>Observations and invariants\<close>

text \<open>
  What the results below observe: the step counter of a parameter, read through the state
  dictionary (absent while the parameter has no record), and the number of calls of a
  sequence that pass the length check and carry a gradient in slot \<open>i\<close>.
\<close>

definition step_count :: "updater \<Rightarrow> heap \<Rightarrow> addr \<Rightarrow> tensor option" where
  "step_count u h p = map_option (\<lambda>r. cells h (step_counter r)) (state u p)"

definition present_calls :: "nat \<Rightarrow> nat \<Rightarrow> tensor option list list \<Rightarrow> nat" where
  "present_calls n i gss = length (filter (\<lambda>gs. length gs = n \<and> gs ! i \<noteq> None) gss)"

text \<open>
  A parameter list may hold the same tensor in several slots. \<open>occ q pairs\<close> is the
  number of slots of one call that hold the parameter \<open>q\<close> together with a gradient,
  and \<open>present_slots ps gss q\<close> adds these numbers over the calls of a sequence that
  pass the length check. \<open>all_complete\<close> says that every call of a sequence returns
  without an exception.
\<close>

definition occ :: "addr \<Rightarrow> (addr \<times> tensor option) list \<Rightarrow> nat" where
  "occ q pairs = length (filter (\<lambda>pg. fst pg = q \<and> snd pg \<noteq> None) pairs)"

definition present_slots :: "addr list \<Rightarrow> tensor option list list \<Rightarrow> addr \<Rightarrow> nat" where
  "present_slots ps gss q =
     sum_list (map (\<lambda>gs. if length gs = length ps then occ q (zip ps gs) else 0) gss)"

fun all_complete :: "updater \<Rightarrow> tensor option list list \<Rightarrow> heap \<Rightarrow> bool" where
  "all_complete u [] h = True"
| "all_complete u (gradients # rest) h =
     (case step u gradients h of (e, u', h') \<Rightarrow> e = None \<and> all_complete u' rest h')"

text \<open>
  The invariants of an updater and its store. \<open>keys_ok\<close>: a record holds the optional
  buffers that the configuration asks for, and no others. \<open>sep\<close>: the parameters and
  all tensors of the records are allocated, and no step counter is a parameter, a buffer
  of any record, or the counter of another parameter. \<open>counts\<close> relates the counters in
  the store to a count \<open>f\<close> per parameter: the counter reads the count, capped at
  \<open>2^24\<close> where the float counter stops. \<open>lists_ok\<close> describes the local lists of the
  loop: they hold buffers of records only.
\<close>

definition buffer_addrs :: "pstate \<Rightarrow> addr set" where
  "buffer_addrs r =
     insert (square_avg r) (set_option (momentum_buffer r) \<union> set_option (grad_avg r))"

definition keys_ok :: "real \<Rightarrow> bool \<Rightarrow> (addr \<rightharpoonup> pstate) \<Rightarrow> bool" where
  "keys_ok mom cen st \<longleftrightarrow>
     (\<forall>p r. st p = Some r \<longrightarrow>
        ((momentum_buffer r \<noteq> None) = (mom > 0)) \<and> ((grad_avg r \<noteq> None) = cen))"

definition config_inv :: "updater \<Rightarrow> bool" where
  "config_inv u \<longleftrightarrow> keys_ok (momentum (defaults u)) (centered u) (state u)"

definition sep :: "addr list \<Rightarrow> (addr \<rightharpoonup> pstate) \<Rightarrow> heap \<Rightarrow> bool" where
  "sep ps st h \<longleftrightarrow>
     (\<forall>q\<in>set ps. q < next_free h) \<and>
     (\<forall>p r. st p = Some r \<longrightarrow>
        step_counter r < next_free h \<and> step_counter r \<notin> set ps \<and>
        (\<forall>a\<in>buffer_addrs r. a < next_free h)) \<and>
     (\<forall>p r p' r'. st p = Some r \<longrightarrow> st p' = Some r' \<longrightarrow>
        step_counter r \<notin> buffer_addrs r' \<and> (step_counter r = step_counter r' \<longrightarrow> p = p'))"

definition cap :: "nat \<Rightarrow> nat" where
  "cap n = min n 16777216"

definition counts :: "(addr \<rightharpoonup> pstate) \<Rightarrow> heap \<Rightarrow> (addr \<Rightarrow> nat) \<Rightarrow> bool" where
  "counts st h f \<longleftrightarrow>
     (\<forall>p. st p = None \<longrightarrow> f p = 0) \<and>
     (\<forall>p r. st p = Some r \<longrightarrow> 0 < f p \<and> cells h (step_counter r) = [real (cap (f p))])"

definition lists_ok :: "(addr \<rightharpoonup> pstate) \<Rightarrow> lists \<Rightarrow> bool" where
  "lists_ok st ls \<longleftrightarrow>
     (\<forall>a \<in> set (square_avgs ls) \<union> set (grad_avgs ls) \<union> set (momentum_buffer_list ls).
        \<exists>p r. st p = Some r \<and> a \<in> buffer_addrs r)"

text \<open>
  Names for the pieces of one loop iteration: the record that lazy initialisation creates
  at the next free address, the increment of a counter, and the lists after one more
  gradient (for a record that has the optional buffers the configuration asks for, which
  is what \<open>keys_ok\<close> says).
\<close>

definition fresh_record :: "real \<Rightarrow> bool \<Rightarrow> addr \<Rightarrow> pstate" where
  "fresh_record mom cen n =
     \<lparr>step_counter = n, square_avg = Suc n,
      momentum_buffer = (if mom > 0 then Some (Suc (Suc n)) else None),
      grad_avg = (if cen then Some (if mom > 0 then Suc (Suc (Suc n)) else Suc (Suc n)) else None)\<rparr>"

definition bump :: "addr \<Rightarrow> heap \<Rightarrow> heap" where
  "bump a h = store a (map f32_succ (cells h a)) h"

definition push :: "real \<Rightarrow> bool \<Rightarrow> tensor \<Rightarrow> pstate \<Rightarrow> lists \<Rightarrow> lists" where
  "push mom cen g r ls =
     \<lparr>grads = grads ls @ [g],
      square_avgs = square_avgs ls @ [square_avg r],
      grad_avgs = (if cen then grad_avgs ls @ [the (grad_avg r)] else grad_avgs ls),
      momentum_buffer_list =
        (if mom > 0 then momentum_buffer_list ls @ [the (momentum_buffer r)]
         else momentum_buffer_list ls)\<rparr>"

definition loop_inv ::
  "real \<Rightarrow> bool \<Rightarrow> addr list \<Rightarrow> (addr \<Rightarrow> nat) \<Rightarrow> (addr \<rightharpoonup> pstate) \<times> heap \<times> lists \<Rightarrow> bool" where
  "loop_inv mom cen ps f s \<longleftrightarrow>
     (case s of (st, h, ls) \<Rightarrow>
        keys_ok mom cen st \<and> sep ps st h \<and> counts st h f \<and> lists_ok st ls)"

definition reach_inv :: "updater \<Rightarrow> heap \<Rightarrow> (addr \<Rightarrow> nat) \<Rightarrow> bool" where
  "reach_inv u h f \<longleftrightarrow>
     keys_ok (momentum (defaults u)) (centered u) (state u) \<and>
     sep (params u) (state u) h \<and> counts (state u) h f"

text \<open>
  The count per parameter after one visit, after the loop, after a call and after a
  sequence of calls.
\<close>

fun tick :: "(addr \<Rightarrow> nat) \<Rightarrow> addr \<Rightarrow> tensor option \<Rightarrow> (addr \<Rightarrow> nat)" where
  "tick f p None = f"
| "tick f p (Some g) = f(p := Suc (f p))"

fun tally :: "(addr \<times> tensor option) list \<Rightarrow> (addr \<Rightarrow> nat) \<Rightarrow> (addr \<Rightarrow> nat)" where
  "tally [] f = f"
| "tally ((p, og) # rest) f = tally rest (tick f p og)"

definition after_call :: "addr list \<Rightarrow> tensor option list \<Rightarrow> (addr \<Rightarrow> nat) \<Rightarrow> (addr \<Rightarrow> nat)" where
  "after_call ps gs f = (if length ps = length gs then tally (zip ps gs) f else f)"

fun tally_calls :: "addr list \<Rightarrow> tensor option list list \<Rightarrow> (addr \<Rightarrow> nat) \<Rightarrow> (addr \<Rightarrow> nat)" where
  "tally_calls ps [] f = f"
| "tally_calls ps (gs # gss) f = tally_calls ps gss (after_call ps gs f)"

text \<open>
  \<open>grows\<close>: the loop only adds records, only allocates, and below the old allocation
  mark writes to step counters only. \<open>only_at\<close>: a store differs from another at most
  at the given addresses.
\<close>

definition grows ::
  "(addr \<rightharpoonup> pstate) \<times> heap \<times> lists \<Rightarrow> (addr \<rightharpoonup> pstate) \<times> heap \<times> lists \<Rightarrow> bool" where
  "grows s s' \<longleftrightarrow>
     (case s of (st, h, ls) \<Rightarrow> case s' of (st', h', ls') \<Rightarrow>
        (\<forall>q r. st q = Some r \<longrightarrow> st' q = Some r) \<and>
        next_free h \<le> next_free h' \<and>
        (\<forall>a<next_free h. (\<forall>q r. st' q = Some r \<longrightarrow> step_counter r \<noteq> a) \<longrightarrow>
           cells h' a = cells h a))"

definition only_at :: "addr set \<Rightarrow> heap \<Rightarrow> heap \<Rightarrow> bool" where
  "only_at A h h' \<longleftrightarrow>
     next_free h' = next_free h \<and> (\<forall>a. a \<notin> A \<longrightarrow> cells h' a = cells h a)"

text \<open>
  The step operation with the kernel left open. It is \<open>step\<close> word for word, except
  that the kernel it calls is an argument.
\<close>

type_synonym kernel =
  "addr list \<Rightarrow> tensor list \<Rightarrow> addr list \<Rightarrow> addr list \<Rightarrow> addr list \<Rightarrow>
   real \<Rightarrow> real \<Rightarrow> real \<Rightarrow> real \<Rightarrow> real \<Rightarrow> bool \<Rightarrow> heap \<Rightarrow> error option \<times> heap"

definition step_with ::
  "kernel \<Rightarrow> updater \<Rightarrow> tensor option list \<Rightarrow> heap \<Rightarrow> error option \<times> updater \<times> heap" where
  "step_with K u gradients h =
     (if length (params u) \<noteq> length gradients
      then (Some (ValueError_gradients_length (length (params u)) (length gradients)), u, h)
      else
        case collect (momentum (defaults u)) (centered u) (zip (params u) gradients)
               (state u, h,
                \<lparr>grads = [], square_avgs = [], grad_avgs = [], momentum_buffer_list = []\<rparr>) of
          (Some e, st, h1, ls) \<Rightarrow> (Some e, u\<lparr>state := st\<rparr>, h1)
        | (None, st, h1, ls) \<Rightarrow>
            (case K (params u) (grads ls) (square_avgs ls) (grad_avgs ls)
                    (momentum_buffer_list ls)
                    (lr (defaults u)) (alpha (defaults u)) (eps (defaults u))
                    (weight_decay (defaults u)) (momentum (defaults u)) (centered u) h1 of
               (e, h2) \<Rightarrow> (e, u\<lparr>state := st\<rparr>, h2)))"

text \<open>
  Two updaters, each with its store, are the same up to the identity of their tensors when
  a one-to-one renaming \<open>\<pi>\<close> of the tensors of the first (its parameters and the tensors
  of their state records, \<open>tensors\<close>) leads to the second: the configuration is the same,
  the parameter list of the second is the renamed parameter list of the first (so the two
  lists hold a tensor twice in the same slots), a parameter has a record in one exactly
  when its counterpart has one in the other, made of the counterparts of its tensors, and
  a tensor and its counterpart are allocated and hold the same elements. \<open>state_values\<close>
  reads the contents of a parameter's record: the step counter, the running average of
  squares, and the two optional buffers.
\<close>

definition rename_record :: "(addr \<Rightarrow> addr) \<Rightarrow> pstate \<Rightarrow> pstate" where
  "rename_record \<pi> r =
     \<lparr>step_counter = \<pi> (step_counter r), square_avg = \<pi> (square_avg r),
      momentum_buffer = map_option \<pi> (momentum_buffer r),
      grad_avg = map_option \<pi> (grad_avg r)\<rparr>"

definition record_addrs :: "pstate \<Rightarrow> addr set" where
  "record_addrs r = insert (step_counter r) (buffer_addrs r)"

definition tensors :: "addr list \<Rightarrow> (addr \<rightharpoonup> pstate) \<Rightarrow> addr set" where
  "tensors ps st =
     set ps \<union> (\<Union>p\<in>set ps. case st p of None \<Rightarrow> {} | Some r \<Rightarrow> record_addrs r)"

definition alike ::
  "(addr \<Rightarrow> addr) \<Rightarrow> addr list \<Rightarrow> (addr \<rightharpoonup> pstate) \<Rightarrow> heap \<Rightarrow>
   (addr \<rightharpoonup> pstate) \<Rightarrow> heap \<Rightarrow> bool" where
  "alike \<pi> ps st1 h1 st2 h2 \<longleftrightarrow>
     inj_on \<pi> (tensors ps st1) \<and>
     (\<forall>p\<in>set ps. st2 (\<pi> p) = map_option (rename_record \<pi>) (st1 p)) \<and>
     (\<forall>a\<in>tensors ps st1.
        a < next_free h1 \<and> \<pi> a < next_free h2 \<and> cells h2 (\<pi> a) = cells h1 a)"

definition same_up_to_renaming ::
  "(addr \<Rightarrow> addr) \<Rightarrow> updater \<Rightarrow> heap \<Rightarrow> updater \<Rightarrow> heap \<Rightarrow> bool" where
  "same_up_to_renaming \<pi> u1 h1 u2 h2 \<longleftrightarrow>
     defaults u2 = defaults u1 \<and> centered u2 = centered u1 \<and>
     params u2 = map \<pi> (params u1) \<and>
     alike \<pi> (params u1) (state u1) h1 (state u2) h2"

definition state_values ::
  "updater \<Rightarrow> heap \<Rightarrow> addr \<Rightarrow> (tensor \<times> tensor \<times> tensor option \<times> tensor option) option" where
  "state_values u h p =
     map_option
       (\<lambda>r. (cells h (step_counter r), cells h (square_avg r),
             map_option (cells h) (momentum_buffer r), map_option (cells h) (grad_avg r)))
       (state u p)"

text \<open>
  Devices of the proof: the local lists of the loop in the two runs, \<open>agree\<close> for two
  stores that hold the same elements in corresponding tensors, and \<open>mirror\<close>, the second
  store written as a copy of the first on the renamed tensors.
\<close>

definition lists_alike :: "(addr \<Rightarrow> addr) \<Rightarrow> addr set \<Rightarrow> lists \<Rightarrow> lists \<Rightarrow> bool" where
  "lists_alike \<pi> D ls1 ls2 \<longleftrightarrow>
     grads ls2 = grads ls1 \<and>
     square_avgs ls2 = map \<pi> (square_avgs ls1) \<and>
     grad_avgs ls2 = map \<pi> (grad_avgs ls1) \<and>
     momentum_buffer_list ls2 = map \<pi> (momentum_buffer_list ls1) \<and>
     set (square_avgs ls1) \<union> set (grad_avgs ls1) \<union> set (momentum_buffer_list ls1) \<subseteq> D"

definition agree :: "(addr \<Rightarrow> addr) \<Rightarrow> addr set \<Rightarrow> heap \<Rightarrow> heap \<Rightarrow> bool" where
  "agree \<pi> D h1 h2 \<longleftrightarrow> (\<forall>a\<in>D. cells h2 (\<pi> a) = cells h1 a)"

definition mirror :: "(addr \<Rightarrow> addr) \<Rightarrow> addr set \<Rightarrow> heap \<Rightarrow> heap \<Rightarrow> heap" where
  "mirror \<pi> D h1 hb =
     hb\<lparr>cells := (\<lambda>b. if b \<in> \<pi> ` D then cells h1 (inv_into D \<pi> b) else cells hb b)\<rparr>"

section \<open>Construction: results\<close>

text \<open>
  C3. Construction with an empty parameter list fails with the empty-parameter-list error,
  so no updater is returned; with a non-empty list that error is not raised.
\<close>

theorem init_empty_fails:
  "init [] lr0 alpha0 eps0 wd0 mom0 cen0 = Inl ValueError_empty_parameter_list
   \<and> (\<forall>u. init [] lr0 alpha0 eps0 wd0 mom0 cen0 \<noteq> Inr u)
   \<and> (ps \<noteq> [] \<longrightarrow> init ps lr0 alpha0 eps0 wd0 mom0 cen0 \<noteq> Inl ValueError_empty_parameter_list)"
  by (simp add: init_def)

theorem init_empty_fails_witness:
  "init [] 0.01 0.99 0.00000001 0 0 False = Inl ValueError_empty_parameter_list
   \<and> (\<forall>u. init [] 0.01 0.99 0.00000001 0 0 False \<noteq> Inr u)
   \<and> [3::nat] \<noteq> []
   \<and> init [3] 0.01 0.99 0.00000001 0 0 False \<noteq> Inl ValueError_empty_parameter_list"
  using init_empty_fails [of "0.01" "0.99" "0.00000001" 0 0 False "[3]"] by simp

text \<open>
  C10. Construction does not look at the numeric configuration: with a non-empty parameter
  list it succeeds for every value of the learning rate, the smoothing constant, epsilon,
  the weight decay and the momentum, and stores them as given; it fails only when the
  parameter list is empty.
\<close>

theorem init_accepts_any_config:
  "(ps \<noteq> [] \<longrightarrow>
      init ps lr0 alpha0 eps0 wd0 mom0 cen0 =
        Inr \<lparr>defaults = \<lparr>lr = lr0, alpha = alpha0, eps = eps0,
                             weight_decay = wd0, momentum = mom0\<rparr>,
             centered = cen0, params = ps, state = Map.empty\<rparr>)
   \<and> ((\<exists>e. init ps lr0 alpha0 eps0 wd0 mom0 cen0 = Inl e) \<longleftrightarrow> ps = [])"
  by (simp add: init_def)

theorem init_accepts_any_config_witness:
  "[7::nat] \<noteq> []
   \<and> init [7] (- 1) 2 (- 3) (- 4) (- 5) True =
        Inr \<lparr>defaults = \<lparr>lr = - 1, alpha = 2, eps = - 3,
                             weight_decay = - 4, momentum = - 5\<rparr>,
             centered = True, params = [7], state = Map.empty\<rparr>
   \<and> \<not> (\<exists>e. init [7] (- 1) 2 (- 3) (- 4) (- 5) True = Inl e)"
  using init_accepts_any_config [of "[7]" "- 1" 2 "- 3" "- 4" "- 5" True] by simp

section \<open>The step operation: the length check\<close>

text \<open>
  C2. When the gradient list and the parameter list differ in length, the call raises the
  length-mismatch error and returns the updater and the store exactly as it received them:
  the check comes before the loop.
\<close>

theorem step_length_mismatch:
  "length gradients \<noteq> length (params u) \<Longrightarrow>
   step u gradients h =
     (Some (ValueError_gradients_length (length (params u)) (length gradients)), u, h)"
  by (auto simp: step_def)

theorem step_length_mismatch_witness:
  "length [Some [1::real]] \<noteq>
     length (params \<lparr>defaults = \<lparr>lr = 0.01, alpha = 0.99, eps = 0.00000001,
                                     weight_decay = 0, momentum = 0\<rparr>,
                      centered = False, params = [0, 1], state = Map.empty\<rparr>)
   \<and> step \<lparr>defaults = \<lparr>lr = 0.01, alpha = 0.99, eps = 0.00000001,
                             weight_decay = 0, momentum = 0\<rparr>,
              centered = False, params = [0, 1], state = Map.empty\<rparr>
         [Some [1]] \<lparr>cells = (\<lambda>_. [5]), next_free = 2\<rparr> =
       (Some (ValueError_gradients_length 2 1),
        \<lparr>defaults = \<lparr>lr = 0.01, alpha = 0.99, eps = 0.00000001,
                         weight_decay = 0, momentum = 0\<rparr>,
          centered = False, params = [0, 1], state = Map.empty\<rparr>,
        \<lparr>cells = (\<lambda>_. [5]), next_free = 2\<rparr>)"
  using step_length_mismatch
    [of "[Some [1]]"
        "\<lparr>defaults = \<lparr>lr = 0.01, alpha = 0.99, eps = 0.00000001,
                            weight_decay = 0, momentum = 0\<rparr>,
           centered = False, params = [0, 1], state = Map.empty\<rparr>"
        "\<lparr>cells = (\<lambda>_. [5]), next_free = 2\<rparr>"]
  by simp

section \<open>Numeric behaviour of one call\<close>

lemma sqrt_one_25th: "sqrt (1 / 25) = 1 / 5"
  by (rule real_sqrt_unique) (simp_all add: power2_eq_square)

lemmas step_unfold = step_def lazy_init_def alloc_def zeros_like_def store_def
  rmsprop_def rmsprop_param_def f32_succ_def Let_def

text \<open>
  C4. One scalar parameter of value 1 under the default configuration (learning rate 0.01,
  smoothing constant 0.99, epsilon 1e-8, no weight decay, no momentum, not centred) and the
  gradient 2: the call completes, the running average of squares becomes
  (1 - 0.99) * 4 = 0.04, the normaliser sqrt 0.04 + 1e-8 is within 1e-8 of 0.2, and the
  parameter becomes 1 - 0.01 * 2 / (sqrt 0.04 + 1e-8), which is within 1e-8 of 0.9.
\<close>

theorem rmsprop_first_step_example:
  assumes "init [a] 0.01 0.99 0.00000001 0 0 False = Inr u"
    and "a < next_free h" and "cells h a = [1]"
  shows "\<exists>u' h' r. step u [Some [2]] h = (None, u', h')
           \<and> state u' a = Some r
           \<and> cells h' (square_avg r) = [(1 - 0.99) * 4]
           \<and> (1 - 0.99) * 4 = (0.04::real)
           \<and> cells h' a = [1 - 0.01 * 2 / (sqrt 0.04 + 0.00000001)]
           \<and> \<bar>sqrt 0.04 + 0.00000001 - (0.2::real)\<bar> \<le> 0.00000001
           \<and> \<bar>1 - 0.01 * 2 / (sqrt 0.04 + 0.00000001) - (0.9::real)\<bar> < 0.00000001"
proof -
  have u: "u = \<lparr>defaults = \<lparr>lr = 0.01, alpha = 0.99, eps = 0.00000001,
                             weight_decay = 0, momentum = 0\<rparr>,
              centered = False, params = [a], state = Map.empty\<rparr>"
    using assms(1) by (simp add: init_def)
  show ?thesis
    using assms(2,3) unfolding u
    by (simp add: step_unfold sqrt_one_25th)
qed

theorem rmsprop_first_step_example_witness:
  "\<exists>u' h' r.
      step \<lparr>defaults = \<lparr>lr = 0.01, alpha = 0.99, eps = 0.00000001,
                           weight_decay = 0, momentum = 0\<rparr>,
            centered = False, params = [0], state = Map.empty\<rparr>
        [Some [2]] \<lparr>cells = (\<lambda>_. [1]), next_free = 1\<rparr> = (None, u', h')
      \<and> state u' 0 = Some r
      \<and> cells h' (square_avg r) = [(1 - 0.99) * 4]
      \<and> (1 - 0.99) * 4 = (0.04::real)
      \<and> cells h' 0 = [1 - 0.01 * 2 / (sqrt 0.04 + 0.00000001)]
      \<and> \<bar>sqrt 0.04 + 0.00000001 - (0.2::real)\<bar> \<le> 0.00000001
      \<and> \<bar>1 - 0.01 * 2 / (sqrt 0.04 + 0.00000001) - (0.9::real)\<bar> < 0.00000001"
  using rmsprop_first_step_example
    [of 0 "\<lparr>defaults = \<lparr>lr = 0.01, alpha = 0.99, eps = 0.00000001,
                             weight_decay = 0, momentum = 0\<rparr>,
              centered = False, params = [0], state = Map.empty\<rparr>"
        "\<lparr>cells = (\<lambda>_. [1]), next_free = 1\<rparr>"]
  by (simp add: init_def)

section \<open>Absent gradients\<close>

text \<open>
  The loop hands the kernel the whole parameter list, and the gradients and buffers of
  the present slots only. Whatever the kernel is, it cannot tell which slot a gradient came
  from: for two fresh parameters of the same shape, the call with the gradient in the
  second slot and the call with the same gradient in the first slot give the kernel the
  same arguments and the same store, so they raise the same exception, if any, and leave
  the same store.
\<close>

lemma step_with_rmsprop: "step_with rmsprop u gradients h = step u gradients h"
  by (simp add: step_with_def step_def)

lemma kernel_cannot_tell_the_slot:
  assumes "params u = [p0, p1]" and "state u = Map.empty"
    and "p0 < next_free h" and "p1 < next_free h"
    and "length (cells h p0) = length (cells h p1)"
  shows "fst (step_with K u [None, Some g] h) = fst (step_with K u [Some g, None] h)"
    and "snd (snd (step_with K u [None, Some g] h)) = snd (snd (step_with K u [Some g, None] h))"
  using assms
  by (simp_all add: step_with_def lazy_init_def alloc_def zeros_like_def store_def Let_def
      split: prod.splits)

text \<open>
  C1, evaluated where it fails. Two scalar parameters of value 1 at the addresses 0 and 1,
  the default configuration, and a call whose first gradient is absent and whose second is
  2. The loop skips the first parameter and creates a state record for the second one
  only. The kernel, however, receives the whole parameter list next to the list of the
  gradients that are present: it pairs the first parameter with the second parameter's
  gradient and running average, overwrites the first parameter, and raises
  \<^verbatim>\<open>IndexError\<close> at the second parameter, which keeps its value.
\<close>

theorem absent_gradient_parameter_overwritten:
  "step \<lparr>defaults = \<lparr>lr = 0.01, alpha = 0.99, eps = 0.00000001,
                        weight_decay = 0, momentum = 0\<rparr>,
         centered = False, params = [0, 1], state = Map.empty\<rparr>
     [None, Some [2]] \<lparr>cells = (\<lambda>_. [1]), next_free = 2\<rparr> =
   (Some IndexError,
    \<lparr>defaults = \<lparr>lr = 0.01, alpha = 0.99, eps = 0.00000001,
                     weight_decay = 0, momentum = 0\<rparr>,
      centered = False, params = [0, 1],
      state = [1 \<mapsto> \<lparr>step_counter = 2, square_avg = 3,
                       momentum_buffer = None, grad_avg = None\<rparr>]\<rparr>,
    \<lparr>cells = (\<lambda>_. [1])(2 := [1], 3 := [0.04], 0 := [1 - 0.01 * 2 / (0.2 + 0.00000001)]),
      next_free = 4\<rparr>)
   \<and> [1 - 0.01 * 2 / (0.2 + 0.00000001)] \<noteq> [1::real]"
  by (simp add: step_unfold sqrt_one_25th)

theorem absent_gradient_parameter_overwritten_witness:
  "fst (step \<lparr>defaults = \<lparr>lr = 0.01, alpha = 0.99, eps = 0.00000001,
                             weight_decay = 0, momentum = 0\<rparr>,
              centered = False, params = [0, 1], state = Map.empty\<rparr>
          [None, Some [2]] \<lparr>cells = (\<lambda>_. [1]), next_free = 2\<rparr>) = Some IndexError
   \<and> cells (snd (snd (step \<lparr>defaults = \<lparr>lr = 0.01, alpha = 0.99, eps = 0.00000001,
                                          weight_decay = 0, momentum = 0\<rparr>,
                           centered = False, params = [0, 1], state = Map.empty\<rparr>
                       [None, Some [2]] \<lparr>cells = (\<lambda>_. [1]), next_free = 2\<rparr>))) 0
       \<noteq> cells \<lparr>cells = (\<lambda>_. [1]), next_free = 2\<rparr> 0
   \<and> cells (snd (snd (step \<lparr>defaults = \<lparr>lr = 0.01, alpha = 0.99, eps = 0.00000001,
                                          weight_decay = 0, momentum = 0\<rparr>,
                           centered = False, params = [0, 1], state = Map.empty\<rparr>
                       [None, Some [2]] \<lparr>cells = (\<lambda>_. [1]), next_free = 2\<rparr>))) 1
       = cells \<lparr>cells = (\<lambda>_. [1]), next_free = 2\<rparr> 1"
  using absent_gradient_parameter_overwritten by simp

section \<open>The optional buffers of a record\<close>

lemma lazy_init_keys:
  assumes "keys_ok mom cen st" and "lazy_init mom cen p st h = (r, st', h')"
  shows "keys_ok mom cen st'"
proof (cases "st p")
  case (Some r0)
  with assms show ?thesis by (simp add: lazy_init_def)
next
  case None
  with assms(2) have "\<exists>rec. st' = st(p \<mapsto> rec) \<and> (momentum_buffer rec \<noteq> None) = (mom > 0)
      \<and> (grad_avg rec \<noteq> None) = cen"
    by (auto simp: lazy_init_def Let_def split: prod.splits if_splits)
  then obtain rec where rec: "st' = st(p \<mapsto> rec)"
    "(momentum_buffer rec \<noteq> None) = (mom > 0)" "(grad_avg rec \<noteq> None) = cen"
    by blast
  have "((momentum_buffer r' \<noteq> None) = (mom > 0)) \<and> ((grad_avg r' \<noteq> None) = cen)"
    if "st' q = Some r'" for q r'
  proof (cases "q = p")
    case True
    with that rec(1) have "r' = rec" by simp
    with rec(2,3) show ?thesis by simp
  next
    case False
    with that rec(1) have "st q = Some r'" by simp
    with assms(1) show ?thesis unfolding keys_ok_def by blast
  qed
  then show ?thesis unfolding keys_ok_def by blast
qed

lemma visit_state:
  assumes "visit mom cen p (Some g) (st, h, ls) = (e, st', h', ls')"
  shows "st' = fst (snd (lazy_init mom cen p st h))"
  using assms
  by (auto simp: Let_def split: prod.splits sum.splits if_splits option.splits)

lemma visit_keys:
  assumes "keys_ok mom cen st" and "visit mom cen p og (st, h, ls) = (e, st', h', ls')"
  shows "keys_ok mom cen st'"
proof (cases og)
  case None
  with assms show ?thesis by simp
next
  case (Some g)
  obtain r st1 h1 where li: "lazy_init mom cen p st h = (r, st1, h1)"
    by (cases "lazy_init mom cen p st h")
  from assms(2) Some have "st' = fst (snd (lazy_init mom cen p st h))"
    by (simp only: visit_state)
  with li have "st' = st1" by simp
  with lazy_init_keys [OF assms(1) li] show ?thesis by simp
qed

lemma collect_keys:
  assumes "keys_ok mom cen st" and "collect mom cen pairs (st, h, ls) = (e, st', h', ls')"
  shows "keys_ok mom cen st'"
  using assms
proof (induction pairs arbitrary: st h ls)
  case Nil
  then show ?case by simp
next
  case (Cons pg pairs)
  obtain p og where pg: "pg = (p, og)" by (cases pg)
  obtain e1 st1 h1 ls1 where v: "visit mom cen p og (st, h, ls) = (e1, st1, h1, ls1)"
    by (cases "visit mom cen p og (st, h, ls)")
  note k1 = visit_keys [OF Cons.prems(1) v]
  show ?case
  proof (cases e1)
    case (Some err)
    with Cons.prems(2) pg v have "st' = st1" by simp
    with k1 show ?thesis by simp
  next
    case None
    with Cons.prems(2) pg v have "collect mom cen pairs (st1, h1, ls1) = (e, st', h', ls')"
      by simp
    from Cons.IH [OF k1 this] show ?thesis .
  qed
qed

lemma step_keys:
  assumes "config_inv u" and "step u gs h = (e, u', h')"
  shows "config_inv u' \<and> defaults u' = defaults u \<and> centered u' = centered u"
proof (cases "length (params u) = length gs")
  case False
  with assms show ?thesis by (auto simp: step_def)
next
  case True
  let ?s0 = "(state u, h,
              \<lparr>grads = [], square_avgs = [], grad_avgs = [], momentum_buffer_list = []\<rparr>)"
  obtain e1 st h1 ls where
    c: "collect (momentum (defaults u)) (centered u) (zip (params u) gs) ?s0 = (e1, st, h1, ls)"
    by (cases "collect (momentum (defaults u)) (centered u) (zip (params u) gs) ?s0")
  from assms(1) have "keys_ok (momentum (defaults u)) (centered u) (state u)"
    by (simp add: config_inv_def)
  from collect_keys [OF this c] have k: "keys_ok (momentum (defaults u)) (centered u) st" .
  from assms(2) True c have "u' = u\<lparr>state := st\<rparr>"
    by (cases e1) (simp_all add: step_def split: prod.splits)
  with k show ?thesis by (simp add: config_inv_def)
qed

lemma steps_keys:
  assumes "config_inv u" and "steps u gss h = (u', h')"
  shows "config_inv u' \<and> defaults u' = defaults u \<and> centered u' = centered u"
  using assms
proof (induction gss arbitrary: u h)
  case Nil
  then show ?case by simp
next
  case (Cons gs gss)
  obtain e u1 h1 where one: "step u gs h = (e, u1, h1)" by (cases "step u gs h")
  from step_keys [OF Cons.prems(1) one] have
    1: "config_inv u1" and same: "defaults u1 = defaults u" "centered u1 = centered u"
    by simp_all
  from Cons.prems(2) one have 2: "steps u1 gss h1 = (u', h')" by simp
  from Cons.IH [OF 1 2] same show ?case by simp
qed

text \<open>
  C6. After construction and any sequence of calls, whatever their outcome, every state
  record has a momentum buffer exactly when the momentum given at construction is
  positive, and an average of gradients exactly when the updater was constructed as
  centred.
\<close>

theorem optional_buffers_follow_config:
  assumes "init ps lr0 alpha0 eps0 wd0 mom0 cen0 = Inr u0"
    and "steps u0 gss h0 = (u, h)"
    and "state u p = Some r"
  shows "(momentum_buffer r \<noteq> None \<longleftrightarrow> mom0 > 0) \<and> (grad_avg r \<noteq> None \<longleftrightarrow> cen0)"
proof -
  from assms(1) have u0: "config_inv u0" "momentum (defaults u0) = mom0" "centered u0 = cen0"
    by (auto simp: init_def config_inv_def keys_ok_def split: if_splits)
  from steps_keys [OF u0(1) assms(2)]
  have "config_inv u" "defaults u = defaults u0" "centered u = centered u0"
    by simp_all
  with u0(2,3) have "keys_ok mom0 cen0 (state u)" by (simp add: config_inv_def)
  with assms(3) show ?thesis unfolding keys_ok_def by blast
qed

theorem optional_buffers_follow_config_witness:
  "init [0] 0.01 0.99 0.00000001 0 0.9 True =
     Inr \<lparr>defaults = \<lparr>lr = 0.01, alpha = 0.99, eps = 0.00000001,
                          weight_decay = 0, momentum = 0.9\<rparr>,
          centered = True, params = [0], state = Map.empty\<rparr>
   \<and> state (fst (steps \<lparr>defaults = \<lparr>lr = 0.01, alpha = 0.99, eps = 0.00000001,
                                       weight_decay = 0, momentum = 0.9\<rparr>,
                        centered = True, params = [0], state = Map.empty\<rparr>
                   [[Some [2]]] \<lparr>cells = (\<lambda>_. [1]), next_free = 1\<rparr>)) 0 =
       Some \<lparr>step_counter = 1, square_avg = 2, momentum_buffer = Some 3, grad_avg = Some 4\<rparr>
   \<and> (momentum_buffer \<lparr>step_counter = 1, square_avg = 2, momentum_buffer = Some 3,
                          grad_avg = Some 4\<rparr> \<noteq> None \<longleftrightarrow> (0::real) < 0.9)
   \<and> (grad_avg \<lparr>step_counter = 1, square_avg = 2, momentum_buffer = Some 3,
                   grad_avg = Some 4\<rparr> \<noteq> None \<longleftrightarrow> True)"
proof -
  let ?u0 = "\<lparr>defaults = \<lparr>lr = 0.01, alpha = 0.99, eps = 0.00000001,
                          weight_decay = 0, momentum = 0.9\<rparr>,
          centered = True, params = [0::nat], state = Map.empty\<rparr>"
  let ?h0 = "\<lparr>cells = (\<lambda>_. [1::real]), next_free = 1\<rparr>"
  let ?r = "\<lparr>step_counter = 1, square_avg = 2, momentum_buffer = Some 3, grad_avg = Some 4\<rparr>"
  have i: "init [0] 0.01 0.99 0.00000001 0 0.9 True = Inr ?u0" by (simp add: init_def)
  have s: "steps ?u0 [[Some [2]]] ?h0 =
             (fst (steps ?u0 [[Some [2]]] ?h0), snd (steps ?u0 [[Some [2]]] ?h0))"
    by simp
  have r: "state (fst (steps ?u0 [[Some [2]]] ?h0)) 0 = Some ?r"
    by (simp add: step_unfold)
  from optional_buffers_follow_config [OF i s r] i r show ?thesis by simp
qed

section \<open>The loop, the kernel and the invariant\<close>

subsection \<open>Lazy initialisation and one visit\<close>

lemma lazy_init_existing:
  "st p = Some r \<Longrightarrow> lazy_init mom cen p st h = (r, st, h)"
  by (simp add: lazy_init_def)

lemma lazy_init_new:
  assumes "st p = None" and "p < next_free h"
  shows "\<exists>h'. lazy_init mom cen p st h =
           (fresh_record mom cen (next_free h), st(p \<mapsto> fresh_record mom cen (next_free h)), h')
         \<and> next_free h < next_free h' 
         \<and> (\<forall>a\<in>buffer_addrs (fresh_record mom cen (next_free h)). a < next_free h')
         \<and> (\<forall>a<next_free h. cells h' a = cells h a)
         \<and> cells h' (next_free h) = [0]
         \<and> (\<forall>a\<in>buffer_addrs (fresh_record mom cen (next_free h)).
               cells h' a = replicate (length (cells h p)) 0)"
  using assms
  by (auto simp: lazy_init_def fresh_record_def alloc_def zeros_like_def buffer_addrs_def Let_def)

lemma visit_Some:
  assumes "lazy_init mom cen p st h = (r, st', h1)"
    and "(momentum_buffer r \<noteq> None) = (mom > 0)" and "(grad_avg r \<noteq> None) = cen"
  shows "visit mom cen p (Some g) (st, h, ls) =
           (None, st', bump (step_counter r) h1, push mom cen g r ls)"
  using assms by (auto simp: bump_def push_def Let_def)

lemma fresh_record_keys:
  "(momentum_buffer (fresh_record mom cen n) \<noteq> None) = (mom > 0)"
  "(grad_avg (fresh_record mom cen n) \<noteq> None) = cen"
  by (simp_all add: fresh_record_def)

lemma visit_existing:
  assumes "keys_ok mom cen st" and "st p = Some r"
  shows "visit mom cen p (Some g) (st, h, ls) =
           (None, st, bump (step_counter r) h, push mom cen g r ls)"
proof -
  have k: "(momentum_buffer r \<noteq> None) = (mom > 0)" "(grad_avg r \<noteq> None) = cen"
    using assms unfolding keys_ok_def by blast+
  have li: "lazy_init mom cen p st h = (r, st, h)"
    using assms(2) by (simp add: lazy_init_existing)
  show ?thesis by (rule visit_Some [OF li k])
qed

lemma visit_new:
  assumes "st p = None" and "p < next_free h"
  shows "\<exists>h1. visit mom cen p (Some g) (st, h, ls) =
           (None, st(p \<mapsto> fresh_record mom cen (next_free h)), bump (next_free h) h1,
            push mom cen g (fresh_record mom cen (next_free h)) ls)
         \<and> next_free h < next_free h1
         \<and> (\<forall>a\<in>buffer_addrs (fresh_record mom cen (next_free h)). a < next_free h1)
         \<and> (\<forall>a<next_free h. cells h1 a = cells h a)
         \<and> cells h1 (next_free h) = [0]
         \<and> (\<forall>a\<in>buffer_addrs (fresh_record mom cen (next_free h)).
               cells h1 a = replicate (length (cells h p)) 0)"
proof -
  let ?r = "fresh_record mom cen (next_free h)"
  from assms lazy_init_new [where st=st and p=p and h=h and mom=mom and cen=cen] obtain h1 where
    li: "lazy_init mom cen p st h = (?r, st(p \<mapsto> ?r), h1)" and
    rest: "next_free h < next_free h1"
      "\<forall>a\<in>buffer_addrs ?r. a < next_free h1"
      "\<forall>a<next_free h. cells h1 a = cells h a"
      "cells h1 (next_free h) = [0]"
      "\<forall>a\<in>buffer_addrs ?r. cells h1 a = replicate (length (cells h p)) 0"
    by blast
  have "visit mom cen p (Some g) (st, h, ls) =
          (None, st(p \<mapsto> ?r), bump (step_counter ?r) h1, push mom cen g ?r ls)"
    by (rule visit_Some [OF li fresh_record_keys])
  moreover have "step_counter ?r = next_free h" by (simp add: fresh_record_def)
  ultimately show ?thesis using rest by auto
qed

lemma bump_simps [simp]:
  "next_free (bump a h) = next_free h"
  "cells (bump a h) b = (if b = a then map f32_succ (cells h a) else cells h b)"
  by (simp_all add: bump_def store_def)

lemma f32_succ_cap: "f32_succ (real (cap n)) = real (cap (Suc n))"
  by (simp add: f32_succ_def cap_def min_def)

lemma sep_bump: "sep ps st (bump a h) = sep ps st h"
  by (simp add: sep_def)

lemma counts_bump:
  assumes "counts st h f" and "sep ps st h" and "st p = Some r"
  shows "counts st (bump (step_counter r) h) (f(p := Suc (f p)))"
proof -
  have "cells (bump (step_counter r) h) (step_counter r') = [real (cap ((f(p := Suc (f p))) q))]"
    if q: "st q = Some r'" for q r'
  proof (cases "q = p")
    case True
    with q assms(3) have "r' = r" by simp
    moreover from assms(1,3) have "cells h (step_counter r) = [real (cap (f p))]"
      unfolding counts_def by blast
    ultimately show ?thesis using True by (simp add: f32_succ_cap)
  next
    case False
    with assms(2,3) q have "step_counter r' \<noteq> step_counter r"
      unfolding sep_def by blast
    moreover from assms(1) q have "cells h (step_counter r') = [real (cap (f q))]"
      unfolding counts_def by blast
    ultimately show ?thesis using False by simp
  qed
  moreover have "0 < (f(p := Suc (f p))) q" if "st q = Some r'" for q r'
    using assms(1) that unfolding counts_def by (cases "q = p") auto
  moreover have "(f(p := Suc (f p))) q = 0" if "st q = None" for q
    using assms(1,3) that unfolding counts_def by (cases "q = p") auto
  ultimately show ?thesis unfolding counts_def by blast
qed

lemma lists_ok_push:
  assumes "lists_ok st ls" and "st p = Some r"
    and "(momentum_buffer r \<noteq> None) = (mom > 0)" and "(grad_avg r \<noteq> None) = cen"
  shows "lists_ok st (push mom cen g r ls)"
  using assms unfolding lists_ok_def push_def buffer_addrs_def
  by (auto split: if_splits)

lemma fresh_record_addrs:
  "step_counter (fresh_record mom cen n) = n"
  "a \<in> buffer_addrs (fresh_record mom cen n) \<Longrightarrow> n < a"
  by (auto simp: fresh_record_def buffer_addrs_def split: if_splits)

lemma sep_new:
  assumes "sep ps st h" and "st p = None"
    and "next_free h < next_free h1"
    and "\<forall>a\<in>buffer_addrs (fresh_record mom cen (next_free h)). a < next_free h1"
  shows "sep ps (st(p \<mapsto> fresh_record mom cen (next_free h))) (bump (next_free h) h1)"
proof -
  let ?n = "next_free h" and ?fr = "fresh_record mom cen (next_free h)"
  let ?st = "st(p \<mapsto> ?fr)"
  have old: "step_counter r < ?n" "step_counter r \<notin> set ps" "\<forall>a\<in>buffer_addrs r. a < ?n"
    if "st q = Some r" for q r
    using assms(1) that unfolding sep_def by blast+
  have ps: "\<forall>q\<in>set ps. q < ?n" using assms(1) unfolding sep_def by blast
  have new: "step_counter ?fr = ?n" "\<forall>a\<in>buffer_addrs ?fr. ?n < a"
    by (auto simp: fresh_record_addrs)
  have 1: "\<forall>q\<in>set ps. q < next_free (bump ?n h1)"
    using ps assms(3) by auto
  have 2: "step_counter r < next_free (bump ?n h1) \<and> step_counter r \<notin> set ps \<and>
           (\<forall>a\<in>buffer_addrs r. a < next_free (bump ?n h1))"
    if "?st q = Some r" for q r
  proof (cases "q = p")
    case True
    with that have "r = ?fr" by simp
    with new assms(3,4) ps show ?thesis by auto
  next
    case False
    with that have "st q = Some r" by simp
    from old [OF this] assms(3) show ?thesis by auto
  qed
  have 3: "step_counter r \<notin> buffer_addrs r' \<and> (step_counter r = step_counter r' \<longrightarrow> q = q')"
    if "?st q = Some r" "?st q' = Some r'" for q r q' r'
  proof (cases "q = p"; cases "q' = p")
    assume "q = p" "q' = p"
    with that have "r = ?fr" "r' = ?fr" by simp_all
    with new \<open>q = p\<close> \<open>q' = p\<close> show ?thesis by auto
  next
    assume "q = p" "q' \<noteq> p"
    with that have "r = ?fr" "st q' = Some r'" by simp_all
    with new old [of q' r'] show ?thesis by auto
  next
    assume "q \<noteq> p" "q' = p"
    with that have "st q = Some r" "r' = ?fr" by simp_all
    with new old [of q r] show ?thesis by auto
  next
    assume "q \<noteq> p" "q' \<noteq> p"
    with that have "st q = Some r" "st q' = Some r'" by simp_all
    with assms(1) show ?thesis unfolding sep_def by blast
  qed
  show ?thesis unfolding sep_def using 1 2 3 by blast
qed

lemma counts_new:
  assumes "counts st h f" and "sep ps st h" and "st p = None"
    and "\<forall>a<next_free h. cells h1 a = cells h a" and "cells h1 (next_free h) = [0]"
  shows "counts (st(p \<mapsto> fresh_record mom cen (next_free h))) (bump (next_free h) h1)
           (f(p := Suc (f p)))"
proof -
  let ?n = "next_free h" and ?fr = "fresh_record mom cen (next_free h)"
  let ?st = "st(p \<mapsto> ?fr)"
  have fp: "f p = 0" using assms(1,3) unfolding counts_def by blast
  have "0 < (f(p := Suc (f p))) q \<and>
        cells (bump ?n h1) (step_counter r) = [real (cap ((f(p := Suc (f p))) q))]"
    if "?st q = Some r" for q r
  proof (cases "q = p")
    case True
    with that have "r = ?fr" by simp
    with True fp assms(5) show ?thesis
      by (simp add: fresh_record_addrs f32_succ_def cap_def)
  next
    case False
    with that have q: "st q = Some r" by simp
    with assms(2) have "step_counter r < ?n" unfolding sep_def by blast
    moreover from assms(1) q have "0 < f q" "cells h (step_counter r) = [real (cap (f q))]"
      unfolding counts_def by blast+
    ultimately show ?thesis using False assms(4) by simp
  qed
  moreover have "(f(p := Suc (f p))) q = 0" if "?st q = None" for q
    using that assms(1) unfolding counts_def by (auto split: if_splits)
  ultimately show ?thesis unfolding counts_def by blast
qed

lemma lists_ok_mono:
  assumes "lists_ok st ls" and "\<forall>q r. st q = Some r \<longrightarrow> st' q = Some r"
  shows "lists_ok st' ls"
  using assms unfolding lists_ok_def by blast

lemma lists_ok_new:
  assumes "lists_ok st ls" and "st p = None"
  shows "lists_ok (st(p \<mapsto> fresh_record mom cen n)) (push mom cen g (fresh_record mom cen n) ls)"
proof -
  have "lists_ok (st(p \<mapsto> fresh_record mom cen n)) ls"
    using assms by (intro lists_ok_mono [OF assms(1)]) auto
  then show ?thesis
    by (rule lists_ok_push [where p=p]) (simp_all add: fresh_record_def)
qed

lemma keys_ok_new:
  "keys_ok mom cen st \<Longrightarrow> keys_ok mom cen (st(p \<mapsto> fresh_record mom cen n))"
  unfolding keys_ok_def by (auto simp: fresh_record_def)

lemma visit_inv:
  assumes "loop_inv mom cen ps f s" and "p \<in> set ps"
  shows "\<exists>s'. visit mom cen p og s = (None, s') \<and> loop_inv mom cen ps (tick f p og) s'
              \<and> grows s s'"
proof -
  obtain st h ls where s: "s = (st, h, ls)" by (cases s)
  from assms(1) s have inv: "keys_ok mom cen st" "sep ps st h" "counts st h f" "lists_ok st ls"
    by (simp_all add: loop_inv_def)
  show ?thesis
  proof (cases og)
    case None
    with assms(1) s show ?thesis by (simp add: grows_def)
  next
    case (Some g)
    show ?thesis
    proof (cases "st p")
      case (Some r)
      have k: "(momentum_buffer r \<noteq> None) = (mom > 0)" "(grad_avg r \<noteq> None) = cen"
        using inv(1) Some unfolding keys_ok_def by blast+
      have v: "visit mom cen p (Some g) (st, h, ls) =
                 (None, st, bump (step_counter r) h, push mom cen g r ls)"
        by (rule visit_existing [OF inv(1) Some])
      have "loop_inv mom cen ps (f(p := Suc (f p)))
              (st, bump (step_counter r) h, push mom cen g r ls)"
        unfolding loop_inv_def
        using inv(1) inv(2) counts_bump [OF inv(3) inv(2) Some]
          lists_ok_push [OF inv(4) Some k]
        by (simp add: sep_bump)
      moreover have "grows (st, h, ls) (st, bump (step_counter r) h, push mom cen g r ls)"
        unfolding grows_def using Some by auto
      ultimately show ?thesis using v s \<open>og = Some g\<close> by simp
    next
      case None
      from assms(2) inv(2) have p: "p < next_free h" unfolding sep_def by blast
      let ?fr = "fresh_record mom cen (next_free h)"
      from None p visit_new [where st=st and p=p and h=h and mom=mom and cen=cen and g=g and ls=ls] obtain h1 where
        v: "visit mom cen p (Some g) (st, h, ls) =
              (None, st(p \<mapsto> ?fr), bump (next_free h) h1, push mom cen g ?fr ls)" and
        h1: "next_free h < next_free h1"
          "\<forall>a\<in>buffer_addrs ?fr. a < next_free h1"
          "\<forall>a<next_free h. cells h1 a = cells h a"
          "cells h1 (next_free h) = [0]"
        by blast
      have "loop_inv mom cen ps (f(p := Suc (f p)))
              (st(p \<mapsto> ?fr), bump (next_free h) h1, push mom cen g ?fr ls)"
        unfolding loop_inv_def
        using keys_ok_new [OF inv(1)] sep_new [OF inv(2) None h1(1,2)]
          counts_new [OF inv(3) inv(2) None h1(3,4)] lists_ok_new [OF inv(4) None]
        by simp
      moreover have "grows (st, h, ls)
          (st(p \<mapsto> ?fr), bump (next_free h) h1, push mom cen g ?fr ls)"
        unfolding grows_def using None h1(1,3) by auto
      ultimately show ?thesis using v s \<open>og = Some g\<close> by simp
    qed
  qed
qed

subsection \<open>The loop\<close>

lemma grows_refl: "grows s s"
  by (cases s) (simp add: grows_def)

lemma grows_trans:
  assumes "grows s s'" and "grows s' s''"
  shows "grows s s''"
proof -
  obtain st h ls st' h' ls' st'' h'' ls''
    where s: "s = (st, h, ls)" "s' = (st', h', ls')" "s'' = (st'', h'', ls'')"
    by (cases s, cases s', cases s'') auto
  from assms s have
    a: "\<forall>q r. st q = Some r \<longrightarrow> st' q = Some r" "next_free h \<le> next_free h'"
       "\<forall>a<next_free h. (\<forall>q r. st' q = Some r \<longrightarrow> step_counter r \<noteq> a) \<longrightarrow>
           cells h' a = cells h a" and
    b: "\<forall>q r. st' q = Some r \<longrightarrow> st'' q = Some r" "next_free h' \<le> next_free h''"
       "\<forall>a<next_free h'. (\<forall>q r. st'' q = Some r \<longrightarrow> step_counter r \<noteq> a) \<longrightarrow>
           cells h'' a = cells h' a"
    by (simp_all add: grows_def)
  have "cells h'' a = cells h a"
    if "a < next_free h" "\<forall>q r. st'' q = Some r \<longrightarrow> step_counter r \<noteq> a" for a
  proof -
    from that a(2) b(3) have "cells h'' a = cells h' a" by auto
    moreover from that b(1) have "\<forall>q r. st' q = Some r \<longrightarrow> step_counter r \<noteq> a" by blast
    with that(1) a(3) have "cells h' a = cells h a" by blast
    ultimately show ?thesis by simp
  qed
  with a(1,2) b(1,2) show ?thesis unfolding s grows_def by auto
qed

lemma collect_inv:
  assumes "loop_inv mom cen ps f s" and "fst ` set pairs \<subseteq> set ps"
  shows "\<exists>s'. collect mom cen pairs s = (None, s') \<and> loop_inv mom cen ps (tally pairs f) s'
              \<and> grows s s'"
  using assms
proof (induction pairs arbitrary: f s)
  case Nil
  then show ?case by (simp add: grows_refl)
next
  case (Cons pg pairs)
  obtain p og where pg: "pg = (p, og)" by (cases pg)
  with Cons.prems(2) have p: "p \<in> set ps" and rest: "fst ` set pairs \<subseteq> set ps" by auto
  from visit_inv [OF Cons.prems(1) p, of og] obtain s1 where
    v: "visit mom cen p og s = (None, s1)" and i1: "loop_inv mom cen ps (tick f p og) s1"
    and g1: "grows s s1" by blast
  from Cons.IH [OF i1 rest] obtain s' where
    c: "collect mom cen pairs s1 = (None, s')"
    and i2: "loop_inv mom cen ps (tally pairs (tick f p og)) s'" and g2: "grows s1 s'"
    by blast
  from v c i2 grows_trans [OF g1 g2] pg show ?case by simp
qed

subsection \<open>The kernel writes to the tensors it is given, and to nothing else\<close>

lemma only_at_refl: "only_at A h h"
  by (simp add: only_at_def)

lemma only_at_store: "a \<in> A \<Longrightarrow> only_at A h h1 \<Longrightarrow> only_at A h (store a t h1)"
  by (auto simp: only_at_def store_def)

lemma only_at_trans: "only_at A h h1 \<Longrightarrow> only_at A h1 h2 \<Longrightarrow> only_at A h h2"
  by (simp add: only_at_def)

lemma rmsprop_param_only_at:
  "only_at (insert p (set sqs \<union> set gas \<union> set bufs)) h
     (snd (rmsprop_param i p gs sqs gas bufs cfg cen h))"
  unfolding rmsprop_param_def Let_def
  by (simp add: only_at_store only_at_refl not_le)

lemma rmsprop_from_only_at:
  "only_at (set ps \<union> set sqs \<union> set gas \<union> set bufs) h
     (snd (rmsprop_from i ps gs sqs gas bufs cfg cen h))"
proof (induction ps arbitrary: i h)
  case Nil
  show ?case by (simp add: only_at_refl)
next
  case (Cons p ps)
  let ?A = "set (p # ps) \<union> set sqs \<union> set gas \<union> set bufs"
  obtain e1 h1 where one: "rmsprop_param i p gs sqs gas bufs cfg cen h = (e1, h1)"
    by (cases "rmsprop_param i p gs sqs gas bufs cfg cen h")
  have "only_at (insert p (set sqs \<union> set gas \<union> set bufs)) h h1"
    using rmsprop_param_only_at [of p sqs gas bufs h i gs cfg cen] one by simp
  then have 1: "only_at ?A h h1" by (auto simp: only_at_def)
  show ?case
  proof (cases e1)
    case (Some err)
    with one 1 show ?thesis by simp
  next
    case None
    have "only_at (set ps \<union> set sqs \<union> set gas \<union> set bufs) h1
            (snd (rmsprop_from (Suc i) ps gs sqs gas bufs cfg cen h1))"
      by (rule Cons.IH)
    then have "only_at ?A h1 (snd (rmsprop_from (Suc i) ps gs sqs gas bufs cfg cen h1))"
      by (auto simp: only_at_def)
    with 1 have "only_at ?A h (snd (rmsprop_from (Suc i) ps gs sqs gas bufs cfg cen h1))"
      by (rule only_at_trans)
    with one None show ?thesis by simp
  qed
qed

subsection \<open>A call and a sequence of calls\<close>

lemma counts_frame:
  assumes "counts st h f"
    and "\<forall>q r. st q = Some r \<longrightarrow> cells h' (step_counter r) = cells h (step_counter r)"
  shows "counts st h' f"
  using assms unfolding counts_def by auto

lemma sep_next_free: "sep ps st h \<Longrightarrow> next_free h' = next_free h \<Longrightarrow> sep ps st h'"
  by (simp add: sep_def)

lemma step_inv:
  assumes "reach_inv u h f" and "step u gs h = (e, u', h')"
  shows "reach_inv u' h' (after_call (params u) gs f) \<and> defaults u' = defaults u
         \<and> centered u' = centered u \<and> params u' = params u
         \<and> (\<forall>q r. state u q = Some r \<longrightarrow> state u' q = Some r)
         \<and> next_free h \<le> next_free h'"
proof (cases "length (params u) = length gs")
  case False
  with assms show ?thesis by (auto simp: step_def after_call_def)
next
  case True
  let ?mom = "momentum (defaults u)" and ?cen = "centered u" and ?ps = "params u"
  let ?s0 = "(state u, h,
              \<lparr>grads = [], square_avgs = [], grad_avgs = [], momentum_buffer_list = []\<rparr>)"
  have l0: "loop_inv ?mom ?cen ?ps f ?s0"
    using assms(1) by (simp add: loop_inv_def reach_inv_def lists_ok_def)
  have sub: "fst ` set (zip ?ps gs) \<subseteq> set ?ps"
    by (auto dest: set_zip_leftD)
  from collect_inv [OF l0 sub] obtain s' where
    c: "collect ?mom ?cen (zip ?ps gs) ?s0 = (None, s')"
    and i: "loop_inv ?mom ?cen ?ps (tally (zip ?ps gs) f) s'" and g: "grows ?s0 s'"
    by (elim exE conjE)
  obtain st h1 ls where s': "s' = (st, h1, ls)" by (cases s')
  from i s' have inv: "keys_ok ?mom ?cen st" "sep ?ps st h1"
    "counts st h1 (tally (zip ?ps gs) f)" "lists_ok st ls"
    by (simp_all add: loop_inv_def)
  define k where "k = rmsprop ?ps (grads ls) (square_avgs ls) (grad_avgs ls)
      (momentum_buffer_list ls) (lr (defaults u)) (alpha (defaults u)) (eps (defaults u))
      (weight_decay (defaults u)) ?mom ?cen h1"
  have "step u gs h = (fst k, u\<lparr>state := st\<rparr>, snd k)"
    using True c s' by (simp add: step_def k_def split: prod.splits)
  with assms(2) have res: "e = fst k" "u' = u\<lparr>state := st\<rparr>" "h' = snd k"
    by simp_all
  have "only_at (set ?ps \<union> set (square_avgs ls) \<union> set (grad_avgs ls)
          \<union> set (momentum_buffer_list ls)) h1 (snd k)"
    unfolding k_def rmsprop_def by (rule rmsprop_from_only_at)
  then have fr: "next_free (snd k) = next_free h1"
    "\<And>a. a \<notin> set ?ps \<Longrightarrow> a \<notin> set (square_avgs ls) \<Longrightarrow> a \<notin> set (grad_avgs ls) \<Longrightarrow>
         a \<notin> set (momentum_buffer_list ls) \<Longrightarrow> cells (snd k) a = cells h1 a"
    by (simp_all add: only_at_def)
  have untouched: "cells (snd k) (step_counter r) = cells h1 (step_counter r)"
    if q: "st q = Some r" for q r
  proof -
    from inv(2) q have 1: "step_counter r \<notin> set ?ps" unfolding sep_def by blast
    have 2: "step_counter r \<noteq> a" if "st q' = Some r'" "a \<in> buffer_addrs r'" for q' r' a
      using inv(2) q that unfolding sep_def by blast
    from inv(4) 2 have "step_counter r \<notin> set (square_avgs ls)"
      "step_counter r \<notin> set (grad_avgs ls)" "step_counter r \<notin> set (momentum_buffer_list ls)"
      unfolding lists_ok_def by blast+
    with 1 show ?thesis by (intro fr(2))
  qed
  have "counts st (snd k) (tally (zip ?ps gs) f)"
  proof (rule counts_frame [OF inv(3)])
    show "\<forall>q r. st q = Some r \<longrightarrow>
            cells (snd k) (step_counter r) = cells h1 (step_counter r)"
      using untouched by blast
  qed
  moreover from inv(2) fr(1) have "sep ?ps st (snd k)" by (rule sep_next_free)
  moreover from g s' fr(1) have "\<forall>q r. state u q = Some r \<longrightarrow> st q = Some r"
    "next_free h \<le> next_free (snd k)"
    by (auto simp: grows_def)
  ultimately show ?thesis
    using inv(1) True res by (simp add: reach_inv_def after_call_def)
qed

lemma steps_inv:
  assumes "reach_inv u h f" and "steps u gss h = (u', h')"
  shows "reach_inv u' h' (tally_calls (params u) gss f) \<and> defaults u' = defaults u
         \<and> centered u' = centered u \<and> params u' = params u
         \<and> (\<forall>q r. state u q = Some r \<longrightarrow> state u' q = Some r)
         \<and> next_free h \<le> next_free h'"
  using assms
proof (induction gss arbitrary: u h f)
  case Nil
  then show ?case by simp
next
  case (Cons gs gss)
  obtain e u1 h1 where one: "step u gs h = (e, u1, h1)" by (cases "step u gs h")
  from step_inv [OF Cons.prems(1) one] have
    1: "reach_inv u1 h1 (after_call (params u) gs f)" and
    same: "defaults u1 = defaults u" "centered u1 = centered u" "params u1 = params u"
      "\<forall>q r. state u q = Some r \<longrightarrow> state u1 q = Some r" "next_free h \<le> next_free h1"
    by simp_all
  from Cons.prems(2) one have 2: "steps u1 gss h1 = (u', h')" by simp
  from Cons.IH [OF 1 2] have
    "reach_inv u' h' (tally_calls (params u1) gss (after_call (params u) gs f))"
    "defaults u' = defaults u1" "centered u' = centered u1" "params u' = params u1"
    "\<forall>q r. state u1 q = Some r \<longrightarrow> state u' q = Some r" "next_free h1 \<le> next_free h'"
    by simp_all
  with same show ?case by simp
qed

lemma init_inv:
  assumes "init ps lr0 alpha0 eps0 wd0 mom0 cen0 = Inr u" and "\<forall>q\<in>set ps. q < next_free h"
  shows "reach_inv u h (\<lambda>_. 0)" and "params u = ps" and "momentum (defaults u) = mom0"
    and "centered u = cen0" and "state u = Map.empty"
proof -
  from assms(1) have u: "u = \<lparr>defaults = \<lparr>lr = lr0, alpha = alpha0, eps = eps0,
                             weight_decay = wd0, momentum = mom0\<rparr>,
                centered = cen0, params = ps, state = Map.empty\<rparr>"
    by (simp add: init_def split: if_splits)
  show "params u = ps" "momentum (defaults u) = mom0" "centered u = cen0"
    "state u = Map.empty"
    by (simp_all add: u)
  show "reach_inv u h (\<lambda>_. 0)"
    using assms(2) by (simp add: u reach_inv_def keys_ok_def sep_def counts_def)
qed

subsection \<open>Counting\<close>

lemma tally_occ: "tally pairs f q = f q + occ q pairs"
proof (induction pairs arbitrary: f)
  case Nil
  show ?case by (simp add: occ_def)
next
  case (Cons pg pairs)
  obtain p og where pg: "pg = (p, og)" by (cases pg)
  show ?case
    unfolding pg by (cases og) (simp_all add: Cons.IH occ_def)
qed


lemma occ_none:
  assumes "length gs = length ps" and "\<forall>j<length ps. ps ! j = q \<longrightarrow> gs ! j = None"
  shows "occ q (zip ps gs) = 0"
  using assms by (auto simp: occ_def filter_empty_conv set_zip)

lemma occ_once:
  assumes "i < length ps" and "length gs = length ps"
    and "\<forall>j<length ps. ps ! j = ps ! i \<longrightarrow> j = i"
  shows "occ (ps ! i) (zip ps gs) = (if gs ! i \<noteq> None then 1 else 0)"
  using assms
proof (induction ps arbitrary: i gs)
  case Nil
  then show ?case by simp
next
  case (Cons p ps)
  then obtain g gs' where gs: "gs = g # gs'" by (cases gs) auto
  with Cons.prems have len: "length gs' = length ps" by simp
  show ?case
  proof (cases i)
    case 0
    have "\<forall>j<length ps. ps ! j = p \<longrightarrow> gs' ! j = None"
    proof (intro allI impI)
      fix j assume "j < length ps" "ps ! j = p"
      with Cons.prems(3) 0 have "Suc j = 0" by (auto simp del: nat.simps)
      then show "gs' ! j = None" by simp
    qed
    from occ_none [OF len this] 0 gs show ?thesis by (simp add: occ_def)
  next
    case (Suc k)
    with Cons.prems have k: "k < length ps" by simp
    from Cons.prems(3) Suc have ne: "ps ! k \<noteq> p" by (auto dest: spec [where x=0])
    have "\<forall>j<length ps. ps ! j = ps ! k \<longrightarrow> j = k"
    proof (intro allI impI)
      fix j assume "j < length ps" "ps ! j = ps ! k"
      with Cons.prems(3) Suc have "Suc j = Suc k" by (auto dest: spec [where x="Suc j"])
      then show "j = k" by simp
    qed
    from Cons.IH [OF k len this] Suc gs ne show ?thesis by (simp add: occ_def)
  qed
qed

lemma tally_calls_slots: "tally_calls ps gss f q = f q + present_slots ps gss q"
proof (induction gss arbitrary: f)
  case Nil
  show ?case by (simp add: present_slots_def)
next
  case (Cons gs gss)
  show ?case
    by (simp add: Cons.IH after_call_def tally_occ present_slots_def eq_commute [of "length ps"])
qed

lemma present_slots_once:
  assumes "i < length ps" and "\<forall>j<length ps. ps ! j = ps ! i \<longrightarrow> j = i"
  shows "present_slots ps gss (ps ! i) = present_calls (length ps) i gss"
proof (induction gss)
  case Nil
  show ?case by (simp add: present_slots_def present_calls_def)
next
  case (Cons gs gss)
  then show ?case
    using occ_once [OF assms(1) _ assms(2), of gs]
    by (auto simp: present_slots_def present_calls_def)
qed

lemma counts_step_count:
  assumes "counts (state u) h f"
  shows "step_count u h p = (if f p = 0 then None else Some [real (cap (f p))])"
proof (cases "state u p")
  case None
  with assms show ?thesis unfolding counts_def step_count_def by simp
next
  case (Some r)
  with assms have "0 < f p" "cells h (step_counter r) = [real (cap (f p))]"
    unfolding counts_def by blast+
  with Some show ?thesis by (simp add: step_count_def)
qed

lemma counter_after_calls:
  assumes "init ps lr0 alpha0 eps0 wd0 mom0 cen0 = Inr u0"
    and "\<forall>q\<in>set ps. q < next_free h0"
    and "steps u0 gss h0 = (u, h)"
  shows "step_count u h p =
           (if present_slots ps gss p = 0 then None
            else Some [real (cap (present_slots ps gss p))])"
proof -
  note i0 = init_inv [OF assms(1,2)]
  from steps_inv [OF i0(1) assms(3)]
  have "reach_inv u h (tally_calls (params u0) gss (\<lambda>_. 0))" by simp
  then have "counts (state u) h (tally_calls ps gss (\<lambda>_. 0))"
    by (simp add: reach_inv_def i0(2))
  from counts_step_count [OF this, of p] show ?thesis
    by (simp add: tally_calls_slots)
qed

subsection \<open>A long run with a zero gradient\<close>

text \<open>
  One scalar parameter of value 1 at address 0, the default configuration, and calls that
  all pass the gradient 0. The first call creates the record (counter at address 1, running
  average of squares at address 2); every call completes, leaves the parameter and the
  running average as they are, and adds 1 to the counter until it stops at \<open>2^24\<close>.
\<close>

lemma zero_gradient_first_call:
  "step \<lparr>defaults = \<lparr>lr = 0.01, alpha = 0.99, eps = 0.00000001,
                        weight_decay = 0, momentum = 0\<rparr>,
         centered = False, params = [0], state = Map.empty\<rparr>
     [Some [0]] \<lparr>cells = (\<lambda>_. [1]), next_free = 1\<rparr> =
   (None,
    \<lparr>defaults = \<lparr>lr = 0.01, alpha = 0.99, eps = 0.00000001,
                     weight_decay = 0, momentum = 0\<rparr>,
      centered = False, params = [0],
      state = [0 \<mapsto> \<lparr>step_counter = 1, square_avg = 2,
                       momentum_buffer = None, grad_avg = None\<rparr>]\<rparr>,
    \<lparr>cells = (\<lambda>_. [1])(1 := [real (cap 1)], 2 := [0], 0 := [1]), next_free = 3\<rparr>)"
  by (simp add: step_unfold cap_def numeral_2_eq_2 numeral_3_eq_3)

lemma zero_gradient_next_call:
  "step \<lparr>defaults = \<lparr>lr = 0.01, alpha = 0.99, eps = 0.00000001,
                        weight_decay = 0, momentum = 0\<rparr>,
         centered = False, params = [0],
         state = [0 \<mapsto> \<lparr>step_counter = 1, square_avg = 2,
                          momentum_buffer = None, grad_avg = None\<rparr>]\<rparr>
     [Some [0]] \<lparr>cells = (\<lambda>_. [1])(1 := [real (cap k)], 2 := [0], 0 := [1]), next_free = 3\<rparr> =
   (None,
    \<lparr>defaults = \<lparr>lr = 0.01, alpha = 0.99, eps = 0.00000001,
                     weight_decay = 0, momentum = 0\<rparr>,
      centered = False, params = [0],
      state = [0 \<mapsto> \<lparr>step_counter = 1, square_avg = 2,
                       momentum_buffer = None, grad_avg = None\<rparr>]\<rparr>,
    \<lparr>cells = (\<lambda>_. [1])(1 := [real (cap (Suc k))], 2 := [0], 0 := [1]), next_free = 3\<rparr>)"
  by (simp add: step_def lazy_init_def store_def rmsprop_def rmsprop_param_def Let_def
      f32_succ_cap)

lemma zero_gradient_next_calls:
  "steps \<lparr>defaults = \<lparr>lr = 0.01, alpha = 0.99, eps = 0.00000001,
                        weight_decay = 0, momentum = 0\<rparr>,
         centered = False, params = [0],
         state = [0 \<mapsto> \<lparr>step_counter = 1, square_avg = 2,
                          momentum_buffer = None, grad_avg = None\<rparr>]\<rparr>
     (replicate n [Some [0]])
     \<lparr>cells = (\<lambda>_. [1])(1 := [real (cap k)], 2 := [0], 0 := [1]), next_free = 3\<rparr> =
   (\<lparr>defaults = \<lparr>lr = 0.01, alpha = 0.99, eps = 0.00000001,
                     weight_decay = 0, momentum = 0\<rparr>,
      centered = False, params = [0],
      state = [0 \<mapsto> \<lparr>step_counter = 1, square_avg = 2,
                       momentum_buffer = None, grad_avg = None\<rparr>]\<rparr>,
    \<lparr>cells = (\<lambda>_. [1])(1 := [real (cap (k + n))], 2 := [0], 0 := [1]), next_free = 3\<rparr>)
   \<and> all_complete \<lparr>defaults = \<lparr>lr = 0.01, alpha = 0.99, eps = 0.00000001,
                        weight_decay = 0, momentum = 0\<rparr>,
         centered = False, params = [0],
         state = [0 \<mapsto> \<lparr>step_counter = 1, square_avg = 2,
                          momentum_buffer = None, grad_avg = None\<rparr>]\<rparr>
     (replicate n [Some [0]])
     \<lparr>cells = (\<lambda>_. [1])(1 := [real (cap k)], 2 := [0], 0 := [1]), next_free = 3\<rparr>"
proof (induction n arbitrary: k)
  case 0
  show ?case by simp
next
  case (Suc n)
  from Suc.IH [of "Suc k"] show ?case
    by (simp only: replicate_Suc steps.simps all_complete.simps zero_gradient_next_call
        prod.case add_Suc add_Suc_right simp_thms)
qed

lemma zero_gradient_calls:
  assumes "0 < n"
  shows
  "steps \<lparr>defaults = \<lparr>lr = 0.01, alpha = 0.99, eps = 0.00000001,
                        weight_decay = 0, momentum = 0\<rparr>,
         centered = False, params = [0], state = Map.empty\<rparr>
     (replicate n [Some [0]]) \<lparr>cells = (\<lambda>_. [1]), next_free = 1\<rparr> =
   (\<lparr>defaults = \<lparr>lr = 0.01, alpha = 0.99, eps = 0.00000001,
                     weight_decay = 0, momentum = 0\<rparr>,
      centered = False, params = [0],
      state = [0 \<mapsto> \<lparr>step_counter = 1, square_avg = 2,
                       momentum_buffer = None, grad_avg = None\<rparr>]\<rparr>,
    \<lparr>cells = (\<lambda>_. [1])(1 := [real (cap n)], 2 := [0], 0 := [1]), next_free = 3\<rparr>)
   \<and> all_complete \<lparr>defaults = \<lparr>lr = 0.01, alpha = 0.99, eps = 0.00000001,
                        weight_decay = 0, momentum = 0\<rparr>,
         centered = False, params = [0], state = Map.empty\<rparr>
     (replicate n [Some [0]]) \<lparr>cells = (\<lambda>_. [1]), next_free = 1\<rparr>"
proof -
  from assms obtain m where n: "n = Suc m" by (cases n) auto
  have m: "1 + m = Suc m" by simp
  show ?thesis
    unfolding n
    using zero_gradient_next_calls [of m 1]
    by (simp only: replicate_Suc steps.simps all_complete.simps zero_gradient_first_call
        prod.case m simp_thms)
qed

lemma present_calls_replicate:
  "present_calls 1 0 (replicate n [Some g]) = n"
  by (induction n) (simp_all add: present_calls_def)

section \<open>The step counter\<close>

text \<open>
  C7 as stated fails in two ways. First, a parameter list may hold the same tensor twice:
  with the parameter list \<open>[p, p]\<close> and one call that completes with a gradient in both
  slots, the counter of \<open>p\<close> reads 2, while there has been one call with a gradient in its
  slot. Second, the counter is a 32-bit float: after \<open>2^24 + 1 = 16777217\<close> calls on one
  parameter, all with a gradient and all completing, the counter reads \<open>16777216\<close>.
\<close>

theorem step_counter_differs_from_number_of_calls:
  "(case steps \<lparr>defaults = \<lparr>lr = 0.01, alpha = 0.99, eps = 0.00000001,
                               weight_decay = 0, momentum = 0\<rparr>,
                centered = False, params = [0, 0], state = Map.empty\<rparr>
           [[Some [2], Some [2]]] \<lparr>cells = (\<lambda>_. [1]), next_free = 1\<rparr> of
      (u, h) \<Rightarrow> step_count u h 0 = Some [2])
   \<and> all_complete \<lparr>defaults = \<lparr>lr = 0.01, alpha = 0.99, eps = 0.00000001,
                                   weight_decay = 0, momentum = 0\<rparr>,
                    centered = False, params = [0, 0], state = Map.empty\<rparr>
        [[Some [2], Some [2]]] \<lparr>cells = (\<lambda>_. [1]), next_free = 1\<rparr>
   \<and> present_calls 2 0 [[Some [2], Some [2]]] = 1
   \<and> present_calls 2 1 [[Some [2], Some [2]]] = 1
   \<and> (case steps \<lparr>defaults = \<lparr>lr = 0.01, alpha = 0.99, eps = 0.00000001,
                                 weight_decay = 0, momentum = 0\<rparr>,
                  centered = False, params = [0], state = Map.empty\<rparr>
             (replicate 16777217 [Some [0]]) \<lparr>cells = (\<lambda>_. [1]), next_free = 1\<rparr> of
        (u, h) \<Rightarrow> step_count u h 0 = Some [16777216])
   \<and> all_complete \<lparr>defaults = \<lparr>lr = 0.01, alpha = 0.99, eps = 0.00000001,
                                   weight_decay = 0, momentum = 0\<rparr>,
                    centered = False, params = [0], state = Map.empty\<rparr>
        (replicate 16777217 [Some [0]]) \<lparr>cells = (\<lambda>_. [1]), next_free = 1\<rparr>
   \<and> present_calls 1 0 (replicate 16777217 [Some [0]]) = 16777217"
proof -
  let ?cfg = "\<lparr>lr = 0.01, alpha = 0.99, eps = 0.00000001, weight_decay = 0, momentum = 0\<rparr>"
  let ?h0 = "\<lparr>cells = (\<lambda>_. [1::real]), next_free = 1\<rparr>"
  let ?uu = "\<lparr>defaults = ?cfg, centered = False, params = [0, 0::nat], state = Map.empty\<rparr>"
  let ?u0 = "\<lparr>defaults = ?cfg, centered = False, params = [0::nat], state = Map.empty\<rparr>"
  have a: "(case steps ?uu [[Some [2], Some [2]]] ?h0 of
              (u, h) \<Rightarrow> step_count u h 0 = Some [2])
           \<and> all_complete ?uu [[Some [2], Some [2]]] ?h0"
    by (simp add: step_unfold step_count_def)
  have b: "present_calls 2 0 [[Some [2::real], Some [2]]] = 1
           \<and> present_calls 2 1 [[Some [2::real], Some [2]]] = 1"
    by (simp add: present_calls_def)
  have pos: "(0::nat) < 16777217" by simp
  have c: "cap 16777217 = 16777216" by (simp add: cap_def)
  have d: "(case steps ?u0 (replicate 16777217 [Some [0]]) ?h0 of
              (u, h) \<Rightarrow> step_count u h 0 = Some [16777216])
           \<and> all_complete ?u0 (replicate 16777217 [Some [0]]) ?h0"
    using zero_gradient_calls [OF pos]
    by (simp only: prod.case step_count_def c) simp
  have e: "present_calls 1 0 (replicate 16777217 [Some [0::real]]) = 16777217"
    by (rule present_calls_replicate)
  from a b d e show ?thesis by (simp only: simp_thms)
qed

text \<open>
  C7, amended. Take an updater constructed over allocated parameters and any sequence of
  calls, each started where the previous one stopped, whether or not it completed. The
  step counter of a parameter then reads the number of slots that held this parameter
  together with a gradient, summed over the calls that passed the length check, and stops
  at \<open>2^24 = 16777216\<close>; while that number is zero the parameter has no state record. A
  call with no gradient for the parameter, or one that fails the length check, adds
  nothing. For a parameter that is in one slot only, the number is the number of calls
  that passed the length check with a gradient in that slot. The calls that complete are
  among those counted.
\<close>

theorem step_counter_counts_present_slots:
  assumes "init ps lr0 alpha0 eps0 wd0 mom0 cen0 = Inr u0"
    and "\<forall>q\<in>set ps. q < next_free h0"
    and "steps u0 gss h0 = (u, h)"
  shows "step_count u h p =
           (if present_slots ps gss p = 0 then None
            else Some [real (min (present_slots ps gss p) 16777216)])
         \<and> (i < length ps \<and> (\<forall>j<length ps. ps ! j = ps ! i \<longrightarrow> j = i) \<longrightarrow>
              present_slots ps gss (ps ! i) = present_calls (length ps) i gss)"
  using counter_after_calls [OF assms, of p] present_slots_once [of i ps gss]
  by (simp add: cap_def)

theorem step_counter_counts_present_slots_witness:
  "init [0, 1] 0.01 0.99 0.00000001 0 0.9 True =
     Inr \<lparr>defaults = \<lparr>lr = 0.01, alpha = 0.99, eps = 0.00000001,
                          weight_decay = 0, momentum = 0.9\<rparr>,
          centered = True, params = [0, 1], state = Map.empty\<rparr>
   \<and> (0::nat) < next_free \<lparr>cells = (\<lambda>_. [1, 2]), next_free = 2\<rparr>
   \<and> (1::nat) < next_free \<lparr>cells = (\<lambda>_. [1, 2]), next_free = 2\<rparr>
   \<and> (0::nat) < length [0, 1::nat]
   \<and> present_calls (length [0, 1::nat]) 0
        [[Some [3, 4], None], [None, Some [5, 6]], [Some [7, 8]],
         [Some [1, 1], Some [2, 2]]] = 2
   \<and> (case steps \<lparr>defaults = \<lparr>lr = 0.01, alpha = 0.99, eps = 0.00000001,
                                   weight_decay = 0, momentum = 0.9\<rparr>,
                    centered = True, params = [0, 1], state = Map.empty\<rparr>
               [[Some [3, 4], None], [None, Some [5, 6]], [Some [7, 8]],
                [Some [1, 1], Some [2, 2]]]
               \<lparr>cells = (\<lambda>_. [1, 2]), next_free = 2\<rparr> of
         (u, h) \<Rightarrow> step_count u h 0 = Some [2])"
proof -
  let ?u0 = "\<lparr>defaults = \<lparr>lr = 0.01, alpha = 0.99, eps = 0.00000001,
                          weight_decay = 0, momentum = 0.9\<rparr>,
          centered = True, params = [0, 1::nat], state = Map.empty\<rparr>"
  let ?h0 = "\<lparr>cells = (\<lambda>_. [1, 2::real]), next_free = 2\<rparr>"
  let ?gss = "[[Some [3, 4], None], [None, Some [5, 6]], [Some [7, 8]],
                [Some [1, 1::real], Some [2, 2]]]"
  obtain u h where r: "steps ?u0 ?gss ?h0 = (u, h)" by (cases "steps ?u0 ?gss ?h0")
  have 1: "init [0, 1] 0.01 0.99 0.00000001 0 0.9 True = Inr ?u0" by (simp add: init_def)
  have 2: "\<forall>q\<in>set [0, 1::nat]. q < next_free ?h0" by simp
  have 3: "(0::nat) < length [0, 1::nat] \<and> (\<forall>j<length [0, 1::nat]. [0, 1] ! j = [0, 1::nat] ! 0 \<longrightarrow> j = 0)"
    by (auto simp: less_Suc_eq)
  have 4: "present_calls (length [0, 1::nat]) 0 ?gss = 2" by (simp add: present_calls_def)
  from step_counter_counts_present_slots [OF 1 2 r, of "[0, 1] ! 0" 0] 3
  have "present_slots [0, 1] ?gss ([0, 1] ! 0) = present_calls (length [0, 1::nat]) 0 ?gss"
    and "step_count u h ([0, 1] ! 0) =
           (if present_slots [0, 1] ?gss ([0, 1] ! 0) = 0 then None
            else Some [real (min (present_slots [0, 1] ?gss ([0, 1] ! 0)) 16777216)])"
    by blast+
  with 4 have "step_count u h 0 = Some [2]" by simp
  with 1 2 4 r show ?thesis by simp
qed

section \<open>Lazy creation of the state record\<close>






section \<open>Calling twice\<close>





section \<open>A slot without a gradient\<close>

text \<open>
  What a call leaves alone for a parameter that has no gradient in any of its slots: the
  state dictionary has the same entry for that parameter as before, a record or none, and
  its step counter reads the same. This holds whether or not the call completes.
\<close>

theorem absent_gradient_keeps_record_and_counter:
  assumes "init ps lr0 alpha0 eps0 wd0 mom0 cen0 = Inr u0"
    and "\<forall>q\<in>set ps. q < next_free h0"
    and "steps u0 gss h0 = (u, h)"
    and "length gs = length ps" and "\<forall>j<length ps. ps ! j = p \<longrightarrow> gs ! j = None"
    and "step u gs h = (e, u', h')"
  shows "state u' p = state u p \<and> step_count u' h' p = step_count u h p"
proof -
  note i0 = init_inv [OF assms(1,2)]
  define f where "f = tally_calls ps gss (\<lambda>_. 0)"
  from steps_inv [OF i0(1) assms(3)] i0(2)
  have ri: "reach_inv u h f" and ps: "params u = ps" by (simp_all add: f_def)
  from step_inv [OF ri assms(6)] ps
  have ri': "reach_inv u' h' (after_call ps gs f)"
    and grow: "\<forall>q r. state u q = Some r \<longrightarrow> state u' q = Some r"
    by simp_all
  have same: "after_call ps gs f p = f p"
    using occ_none [OF assms(4,5)] by (simp add: after_call_def tally_occ)
  from ri have c: "counts (state u) h f" by (simp add: reach_inv_def)
  from ri' have c': "counts (state u') h' (after_call ps gs f)" by (simp add: reach_inv_def)
  have cnt: "step_count u' h' p = step_count u h p"
    using counts_step_count [OF c, of p] counts_step_count [OF c', of p] same by simp
  have "state u' p = state u p"
  proof (cases "state u p")
    case (Some r)
    with grow show ?thesis by simp
  next
    case None
    with c have "f p = 0" unfolding counts_def by blast
    with same have "after_call ps gs f p = 0" by simp
    with c' have "state u' p = None"
      unfolding counts_def by (cases "state u' p") fastforce+
    with None show ?thesis by simp
  qed
  with cnt show ?thesis by simp
qed

theorem absent_gradient_keeps_record_and_counter_witness:
  "(case steps \<lparr>defaults = \<lparr>lr = 0.01, alpha = 0.99, eps = 0.00000001,
                                weight_decay = 0, momentum = 0\<rparr>,
                 centered = False, params = [0, 1], state = Map.empty\<rparr>
            [[Some [3], Some [4]]] \<lparr>cells = (\<lambda>_. [1]), next_free = 2\<rparr> of
      (u, h) \<Rightarrow>
        (case step u [None, Some [5]] h of
           (e, u', h') \<Rightarrow>
             state u' 0 = state u 0 \<and> step_count u' h' 0 = step_count u h 0))"
proof -
  let ?u0 = "\<lparr>defaults = \<lparr>lr = 0.01, alpha = 0.99, eps = 0.00000001,
                                weight_decay = 0, momentum = 0\<rparr>,
                 centered = False, params = [0, 1::nat], state = Map.empty\<rparr>"
  let ?h0 = "\<lparr>cells = (\<lambda>_. [1::real]), next_free = 2\<rparr>"
  obtain u h where s: "steps ?u0 [[Some [3], Some [4]]] ?h0 = (u, h)"
    by (cases "steps ?u0 [[Some [3], Some [4]]] ?h0")
  obtain e u' h' where t: "step u [None, Some [5]] h = (e, u', h')"
    by (cases "step u [None, Some [5]] h")
  have i: "init [0, 1] 0.01 0.99 0.00000001 0 0 False = Inr ?u0" by (simp add: init_def)
  have al: "\<forall>q\<in>set [0, 1::nat]. q < next_free ?h0" by simp
  have len: "length [None, Some [5::real]] = length [0, 1::nat]" by simp
  have n: "\<forall>j<length [0, 1::nat]. [0, 1::nat] ! j = 0 \<longrightarrow> [None, Some [5::real]] ! j = None"
    by (auto simp: less_Suc_eq)
  from absent_gradient_keeps_record_and_counter [OF i al s len n t] s t
  show ?thesis by simp
qed

section \<open>Determinism\<close>

text \<open>
  C9 as stated fails when it is read over values: equal configurations, equal parameter
  values, empty state and equal gradients do not fix the outcome, because the outcome
  depends on which slots of the parameter list hold the same tensor. Take the default
  configuration, scalar tensors of value 1 and the gradients \<open>[2, 2]\<close>. With the
  parameter list \<open>[p, p]\<close> the one tensor is updated twice and its step counter reads 2;
  with the parameter list \<open>[p, q]\<close> each tensor is updated once and its counter reads
  1. Both calls complete, and the parameter values differ.
\<close>

theorem equal_values_do_not_determine_the_outcome:
  "defaults \<lparr>defaults = \<lparr>lr = 0.01, alpha = 0.99, eps = 0.00000001,
                           weight_decay = 0, momentum = 0\<rparr>,
             centered = False, params = [0, 0], state = Map.empty\<rparr> =
   defaults \<lparr>defaults = \<lparr>lr = 0.01, alpha = 0.99, eps = 0.00000001,
                           weight_decay = 0, momentum = 0\<rparr>,
             centered = False, params = [0, 1], state = Map.empty\<rparr>
   \<and> map (cells \<lparr>cells = (\<lambda>_. [1]), next_free = 1\<rparr>) [0, 0] =
       map (cells \<lparr>cells = (\<lambda>_. [1]), next_free = 2\<rparr>) [0, 1]
   \<and> (case step \<lparr>defaults = \<lparr>lr = 0.01, alpha = 0.99, eps = 0.00000001,
                                 weight_decay = 0, momentum = 0\<rparr>,
                  centered = False, params = [0, 0], state = Map.empty\<rparr>
             [Some [2], Some [2]] \<lparr>cells = (\<lambda>_. [1]), next_free = 1\<rparr> of
        (ea, ua, ha) \<Rightarrow>
          (case step \<lparr>defaults = \<lparr>lr = 0.01, alpha = 0.99, eps = 0.00000001,
                                   weight_decay = 0, momentum = 0\<rparr>,
                    centered = False, params = [0, 1], state = Map.empty\<rparr>
               [Some [2], Some [2]] \<lparr>cells = (\<lambda>_. [1]), next_free = 2\<rparr> of
             (eb, ub, hb) \<Rightarrow>
               ea = None \<and> eb = None
               \<and> step_count ua ha 0 = Some [2] \<and> step_count ub hb 0 = Some [1]
               \<and> map (cells ha) (params ua) \<noteq> map (cells hb) (params ub)))"
proof -
  have pos: "(0::real) < sqrt (199 / 2500) + 1 / 100000000"
    by (rule add_nonneg_pos) simp_all
  then have ne: "sqrt (199 / 2500) + 1 / 100000000 \<noteq> (0::real)" by simp
  show ?thesis
    using ne by (simp add: step_unfold step_count_def sqrt_one_25th)
qed

lemma step_params: "step u gs h = (e, u', h') \<Longrightarrow> params u' = params u"
  by (auto simp: step_def split: if_splits prod.splits option.splits)

subsection \<open>The kernel on a renamed store\<close>

lemma mirror_read:
  "inj_on \<pi> D \<Longrightarrow> a \<in> D \<Longrightarrow> cells (mirror \<pi> D h1 hb) (\<pi> a) = cells h1 a"
  by (simp add: mirror_def)

lemma mirror_next_free [simp]: "next_free (mirror \<pi> D h1 hb) = next_free hb"
  by (simp add: mirror_def)

lemma mirror_store:
  assumes "inj_on \<pi> D" and "a \<in> D"
  shows "store (\<pi> a) t (mirror \<pi> D h1 hb) = mirror \<pi> D (store a t h1) hb"
proof -
  have "cells (store (\<pi> a) t (mirror \<pi> D h1 hb)) b = cells (mirror \<pi> D (store a t h1) hb) b"
    for b
  proof (cases "b \<in> \<pi> ` D")
    case True
    then obtain a' where a': "a' \<in> D" "b = \<pi> a'" by blast
    with assms show ?thesis by (auto simp: mirror_def store_def inj_on_eq_iff)
  next
    case False
    with assms(2) have "b \<noteq> \<pi> a" by blast
    with False show ?thesis by (simp add: mirror_def store_def)
  qed
  then have "cells (store (\<pi> a) t (mirror \<pi> D h1 hb)) = cells (mirror \<pi> D (store a t h1) hb)"
    by (rule ext)
  then show ?thesis by (simp add: mirror_def store_def)
qed

lemma mirror_self:
  assumes "inj_on \<pi> D" and "agree \<pi> D h1 h2"
  shows "mirror \<pi> D h1 h2 = h2"
proof -
  have "(\<lambda>b. if b \<in> \<pi> ` D then cells h1 (inv_into D \<pi> b) else cells h2 b) = cells h2"
  proof
    fix b
    show "(if b \<in> \<pi> ` D then cells h1 (inv_into D \<pi> b) else cells h2 b) = cells h2 b"
    proof (cases "b \<in> \<pi> ` D")
      case True
      then obtain a' where a': "a' \<in> D" "b = \<pi> a'" by blast
      with assms show ?thesis by (simp add: agree_def)
    qed simp
  qed
  then show ?thesis by (simp add: mirror_def)
qed

lemma agree_mirror: "inj_on \<pi> D \<Longrightarrow> agree \<pi> D k (mirror \<pi> D k hb)"
  by (simp add: agree_def mirror_read)

lemma rmsprop_param_mirror:
  assumes inj: "inj_on \<pi> D" and p: "p \<in> D"
    and sqs: "set sqs \<subseteq> D" and gas: "set gas \<subseteq> D" and bufs: "set bufs \<subseteq> D"
  shows "rmsprop_param i (\<pi> p) gs (map \<pi> sqs) (map \<pi> gas) (map \<pi> bufs) cfg cen
           (mirror \<pi> D h1 hb) =
         (case rmsprop_param i p gs sqs gas bufs cfg cen h1 of
            (e, k) \<Rightarrow> (e, mirror \<pi> D k hb))"
proof -
  have mem: "i < length sqs \<Longrightarrow> sqs ! i \<in> D" "i < length gas \<Longrightarrow> gas ! i \<in> D"
    "i < length bufs \<Longrightarrow> bufs ! i \<in> D"
    using sqs gas bufs by auto
  note rd = mirror_read [OF inj]
  note st = mirror_store [OF inj]
  show ?thesis
  proof (cases "length gs \<le> i \<or> length sqs \<le> i")
    case True
    then show ?thesis by (auto simp: rmsprop_param_def)
  next
    case False
    then have b: "i < length gs" "i < length sqs" by simp_all
    note sq = mem(1) [OF b(2)]
    show ?thesis
    proof (cases "cen \<and> length gas \<le> i")
      case True
      then show ?thesis using b p sq by (auto simp: rmsprop_param_def Let_def rd st)
    next
      case False
      then have ga: "cen \<Longrightarrow> gas ! i \<in> D" "cen \<Longrightarrow> i < length gas"
        using mem(2) by auto
      show ?thesis
      proof (cases "0 < momentum cfg \<and> length bufs \<le> i")
        case True
        then show ?thesis using b p sq ga
          by (cases cen) (auto simp: rmsprop_param_def Let_def rd st)
      next
        case False
        then have bf: "0 < momentum cfg \<Longrightarrow> bufs ! i \<in> D"
          "0 < momentum cfg \<Longrightarrow> i < length bufs"
          using mem(3) by auto
        show ?thesis using b p sq ga bf
          by (cases cen; cases "0 < momentum cfg")
            (auto simp: rmsprop_param_def Let_def rd st)
      qed
    qed
  qed
qed

lemma rmsprop_from_mirror:
  assumes inj: "inj_on \<pi> D" and ps: "set ps \<subseteq> D"
    and sqs: "set sqs \<subseteq> D" and gas: "set gas \<subseteq> D" and bufs: "set bufs \<subseteq> D"
  shows "rmsprop_from i (map \<pi> ps) gs (map \<pi> sqs) (map \<pi> gas) (map \<pi> bufs) cfg cen
           (mirror \<pi> D h1 hb) =
         (case rmsprop_from i ps gs sqs gas bufs cfg cen h1 of
            (e, k) \<Rightarrow> (e, mirror \<pi> D k hb))"
  using ps
proof (induction ps arbitrary: i h1)
  case Nil
  show ?case by simp
next
  case (Cons p ps)
  then have p: "p \<in> D" and rest: "set ps \<subseteq> D" by simp_all
  obtain e1 k1 where one: "rmsprop_param i p gs sqs gas bufs cfg cen h1 = (e1, k1)"
    by (cases "rmsprop_param i p gs sqs gas bufs cfg cen h1")
  note m = rmsprop_param_mirror [OF inj p sqs gas bufs, of i gs cfg cen h1 hb]
  show ?case
  proof (cases e1)
    case None
    with m one Cons.IH [OF rest, of "Suc i" k1] show ?thesis by simp
  next
    case (Some err)
    with m one show ?thesis by simp
  qed
qed

subsection \<open>The loop in two runs\<close>

lemma tensors_params: "p \<in> set ps \<Longrightarrow> p \<in> tensors ps st"
  by (simp add: tensors_def)

lemma tensors_record:
  assumes "p \<in> set ps" and "st p = Some r" and "a \<in> record_addrs r"
  shows "a \<in> tensors ps st"
proof -
  from assms(2,3) have "a \<in> (case st p of None \<Rightarrow> {} | Some r \<Rightarrow> record_addrs r)" by simp
  with assms(1) have "a \<in> (\<Union>p\<in>set ps. case st p of None \<Rightarrow> {} | Some r \<Rightarrow> record_addrs r)"
    by (rule UN_I)
  then show ?thesis by (simp add: tensors_def)
qed

lemma tensors_upd:
  assumes "p \<in> set ps" and "st p = None"
  shows "tensors ps (st(p \<mapsto> r)) = tensors ps st \<union> record_addrs r"
proof -
  have "(\<Union>q\<in>set ps. case (st(p \<mapsto> r)) q of None \<Rightarrow> {} | Some r \<Rightarrow> record_addrs r) =
        (\<Union>q\<in>set ps. case st q of None \<Rightarrow> {} | Some r \<Rightarrow> record_addrs r) \<union> record_addrs r"
    (is "?L = ?R \<union> _")
  proof (intro set_eqI iffI)
    fix a assume "a \<in> ?L"
    then obtain q where q: "q \<in> set ps"
      "a \<in> (case (st(p \<mapsto> r)) q of None \<Rightarrow> {} | Some r \<Rightarrow> record_addrs r)"
      by blast
    show "a \<in> ?R \<union> record_addrs r"
    proof (cases "q = p")
      case True
      with q(2) show ?thesis by simp
    next
      case False
      with q(2) have "a \<in> (case st q of None \<Rightarrow> {} | Some r \<Rightarrow> record_addrs r)" by simp
      with q(1) have "a \<in> ?R" by (rule UN_I)
      then show ?thesis by simp
    qed
  next
    fix a assume "a \<in> ?R \<union> record_addrs r"
    then consider "a \<in> ?R" | "a \<in> record_addrs r" by blast
    then show "a \<in> ?L"
    proof cases
      case 1
      then obtain q where q: "q \<in> set ps"
        "a \<in> (case st q of None \<Rightarrow> {} | Some r \<Rightarrow> record_addrs r)"
        by blast
      with assms(2) have "q \<noteq> p" by auto
      with q(2) have "a \<in> (case (st(p \<mapsto> r)) q of None \<Rightarrow> {} | Some r \<Rightarrow> record_addrs r)"
        by simp
      with q(1) show ?thesis by (rule UN_I)
    next
      case 2
      then have "a \<in> (case (st(p \<mapsto> r)) p of None \<Rightarrow> {} | Some r \<Rightarrow> record_addrs r)"
        by simp
      with assms(1) show ?thesis by (rule UN_I)
    qed
  qed
  then show ?thesis by (auto simp: tensors_def)
qed

lemma rename_record_cong:
  "(\<And>a. a \<in> record_addrs r \<Longrightarrow> \<pi>' a = \<pi> a) \<Longrightarrow> rename_record \<pi>' r = rename_record \<pi> r"
  by (cases "momentum_buffer r"; cases "grad_avg r")
    (simp_all add: rename_record_def record_addrs_def buffer_addrs_def)

lemma record_addrs_rename: "record_addrs (rename_record \<pi> r) = \<pi> ` record_addrs r"
  by (cases "momentum_buffer r"; cases "grad_avg r")
    (auto simp: rename_record_def record_addrs_def buffer_addrs_def)

lemma buffer_addrs_rename: "buffer_addrs (rename_record \<pi> r) = \<pi> ` buffer_addrs r"
  by (cases "momentum_buffer r"; cases "grad_avg r")
    (auto simp: rename_record_def buffer_addrs_def)

lemma rename_fresh_record:
  "rename_record (\<lambda>a. if n1 \<le> a then a - n1 + n2 else \<pi> a) (fresh_record mom cen n1) =
   fresh_record mom cen n2"
  by (simp add: rename_record_def fresh_record_def)

lemma lazy_init_alike_new:
  assumes al: "alike \<pi> ps st1 h1 st2 h2" and p: "p \<in> set ps" and none: "st1 p = None"
  defines "\<pi>' \<equiv> (\<lambda>a. if next_free h1 \<le> a then a - next_free h1 + next_free h2 else \<pi> a)"
  shows "\<exists>k1 k2.
      lazy_init mom cen p st1 h1 =
        (fresh_record mom cen (next_free h1),
         st1(p \<mapsto> fresh_record mom cen (next_free h1)), k1)
      \<and> lazy_init mom cen (\<pi> p) st2 h2 =
        (fresh_record mom cen (next_free h2),
         st2(\<pi> p \<mapsto> fresh_record mom cen (next_free h2)), k2)
      \<and> rename_record \<pi>' (fresh_record mom cen (next_free h1)) =
          fresh_record mom cen (next_free h2)
      \<and> alike \<pi>' ps (st1(p \<mapsto> fresh_record mom cen (next_free h1))) k1
          (st2(\<pi> p \<mapsto> fresh_record mom cen (next_free h2))) k2
      \<and> (\<forall>a\<in>tensors ps st1. \<pi>' a = \<pi> a)"
proof -
  let ?n1 = "next_free h1" and ?n2 = "next_free h2"
  let ?D = "tensors ps st1"
  let ?f1 = "fresh_record mom cen ?n1" and ?f2 = "fresh_record mom cen ?n2"
  from al have inj: "inj_on \<pi> ?D"
    and strel: "\<And>q. q \<in> set ps \<Longrightarrow> st2 (\<pi> q) = map_option (rename_record \<pi>) (st1 q)"
    and old: "\<And>a. a \<in> ?D \<Longrightarrow> a < ?n1" "\<And>a. a \<in> ?D \<Longrightarrow> \<pi> a < ?n2"
      "\<And>a. a \<in> ?D \<Longrightarrow> cells h2 (\<pi> a) = cells h1 a"
    by (simp_all add: alike_def)
  from p have pD: "p \<in> ?D" by (rule tensors_params)
  from strel [OF p] none have none2: "st2 (\<pi> p) = None" by simp
  from none old(1) [OF pD] lazy_init_new [where st=st1 and p=p and h=h1 and mom=mom and cen=cen]
  obtain k1 where
    l1: "lazy_init mom cen p st1 h1 = (?f1, st1(p \<mapsto> ?f1), k1)"
    and n1: "?n1 < next_free k1" "\<forall>a\<in>buffer_addrs ?f1. a < next_free k1"
      "\<forall>a<?n1. cells k1 a = cells h1 a" "cells k1 ?n1 = [0]"
      "\<forall>a\<in>buffer_addrs ?f1. cells k1 a = replicate (length (cells h1 p)) 0"
    by blast
  from none2 old(2) [OF pD]
    lazy_init_new [where st=st2 and p="\<pi> p" and h=h2 and mom=mom and cen=cen]
  obtain k2 where
    l2: "lazy_init mom cen (\<pi> p) st2 h2 = (?f2, st2(\<pi> p \<mapsto> ?f2), k2)"
    and n2: "?n2 < next_free k2" "\<forall>a\<in>buffer_addrs ?f2. a < next_free k2"
      "\<forall>a<?n2. cells k2 a = cells h2 a" "cells k2 ?n2 = [0]"
      "\<forall>a\<in>buffer_addrs ?f2. cells k2 a = replicate (length (cells h2 (\<pi> p))) 0"
    by blast
  have ext: "\<pi>' a = \<pi> a" if "a \<in> ?D" for a
    using old(1) [OF that] by (simp add: \<pi>'_def)
  have rr: "rename_record \<pi>' ?f1 = ?f2"
    unfolding \<pi>'_def by (rule rename_fresh_record)
  have new: "?n1 \<le> a" if "a \<in> record_addrs ?f1" for a
    using that fresh_record_addrs(2) [of a mom cen ?n1]
    by (auto simp: record_addrs_def fresh_record_addrs(1) dest: less_imp_le)
  have new2: "\<pi>' a = a - ?n1 + ?n2" if "a \<in> record_addrs ?f1" for a
    using new [OF that] by (simp add: \<pi>'_def)
  have D': "tensors ps (st1(p \<mapsto> ?f1)) = ?D \<union> record_addrs ?f1"
    using p none by (rule tensors_upd)
  have inj': "inj_on \<pi>' (?D \<union> record_addrs ?f1)"
  proof (rule inj_onI)
    fix a b assume a: "a \<in> ?D \<union> record_addrs ?f1" and b: "b \<in> ?D \<union> record_addrs ?f1"
      and e: "\<pi>' a = \<pi>' b"
    show "a = b"
    proof (cases "a \<in> ?D"; cases "b \<in> ?D")
      assume "a \<in> ?D" "b \<in> ?D"
      with e ext inj show ?thesis by (simp add: inj_on_eq_iff)
    next
      assume ab: "a \<in> ?D" "b \<notin> ?D"
      with b have "b \<in> record_addrs ?f1" by simp
      from new2 [OF this] new [OF this] ext [OF ab(1)] old(2) [OF ab(1)] e
      show ?thesis by simp
    next
      assume ab: "a \<notin> ?D" "b \<in> ?D"
      with a have "a \<in> record_addrs ?f1" by simp
      from new2 [OF this] new [OF this] ext [OF ab(2)] old(2) [OF ab(2)] e
      show ?thesis by simp
    next
      assume "a \<notin> ?D" "b \<notin> ?D"
      with a b have "a \<in> record_addrs ?f1" "b \<in> record_addrs ?f1" by simp_all
      with new2 new e show ?thesis by (metis add_diff_inverse_nat add_right_cancel not_less)
    qed
  qed
  have st': "(st2(\<pi> p \<mapsto> ?f2)) (\<pi>' q) = map_option (rename_record \<pi>') ((st1(p \<mapsto> ?f1)) q)"
    if q: "q \<in> set ps" for q
  proof (cases "q = p")
    case True
    with ext [OF pD] rr show ?thesis by simp
  next
    case False
    from q have qD: "q \<in> ?D" by (rule tensors_params)
    from False inj pD qD have ne: "\<pi> q \<noteq> \<pi> p" by (simp add: inj_on_eq_iff)
    have "map_option (rename_record \<pi>') (st1 q) = map_option (rename_record \<pi>) (st1 q)"
    proof (cases "st1 q")
      case (Some r)
      have "rename_record \<pi>' r = rename_record \<pi> r"
      proof (rule rename_record_cong)
        fix a assume "a \<in> record_addrs r"
        with q Some have "a \<in> ?D" by (rule tensors_record [where st=st1 and p=q and r=r])
        then show "\<pi>' a = \<pi> a" by (rule ext)
      qed
      with Some show ?thesis by simp
    qed simp
    with False ne ext [OF qD] strel [OF q] show ?thesis by simp
  qed
  have cells': "a < next_free k1 \<and> \<pi>' a < next_free k2 \<and> cells k2 (\<pi>' a) = cells k1 a"
    if a: "a \<in> ?D \<union> record_addrs ?f1" for a
  proof (cases "a \<in> ?D")
    case True
    from old(1) [OF True] n1(1,3) have "a < next_free k1" "cells k1 a = cells h1 a" by simp_all
    moreover from old(2) [OF True] n2(1,3)
    have "\<pi> a < next_free k2" "cells k2 (\<pi> a) = cells h2 (\<pi> a)" by simp_all
    ultimately show ?thesis using ext [OF True] old(3) [OF True] by simp
  next
    case False
    with a have ar: "a \<in> record_addrs ?f1" by simp
    show ?thesis
    proof (cases "a = ?n1")
      case True
      with n1(1,4) n2(1,4) show ?thesis by (simp add: \<pi>'_def)
    next
      case False
      with ar have ab: "a \<in> buffer_addrs ?f1"
        by (simp add: record_addrs_def fresh_record_addrs)
      then have "\<pi>' a \<in> \<pi>' ` buffer_addrs ?f1" by (rule imageI)
      then have ab2: "\<pi>' a \<in> buffer_addrs ?f2"
        using buffer_addrs_rename [of \<pi>' ?f1] rr by simp
      from ab n1(2,5) have "a < next_free k1" "cells k1 a = replicate (length (cells h1 p)) 0"
        by simp_all
      moreover from ab2 n2(2,5)
      have "\<pi>' a < next_free k2" "cells k2 (\<pi>' a) = replicate (length (cells h2 (\<pi> p))) 0"
        by simp_all
      ultimately show ?thesis using old(3) [OF pD] by simp
    qed
  qed
  have "alike \<pi>' ps (st1(p \<mapsto> ?f1)) k1 (st2(\<pi> p \<mapsto> ?f2)) k2"
    unfolding alike_def D' using inj' st' cells' by blast
  with l1 l2 rr ext show ?thesis by blast
qed

lemma lazy_init_alike:
  assumes al: "alike \<pi> ps st1 h1 st2 h2" and p: "p \<in> set ps"
  shows "\<exists>\<pi>' r1 st1' k1 st2' k2.
      lazy_init mom cen p st1 h1 = (r1, st1', k1)
      \<and> lazy_init mom cen (\<pi> p) st2 h2 = (rename_record \<pi>' r1, st2', k2)
      \<and> alike \<pi>' ps st1' k1 st2' k2
      \<and> (\<forall>a\<in>tensors ps st1. \<pi>' a = \<pi> a)
      \<and> tensors ps st1 \<subseteq> tensors ps st1'
      \<and> st1' p = Some r1"
proof (cases "st1 p")
  case None
  let ?\<pi>' = "\<lambda>a. if next_free h1 \<le> a then a - next_free h1 + next_free h2 else \<pi> a"
  let ?f1 = "fresh_record mom cen (next_free h1)"
  from lazy_init_alike_new [OF al p None, of mom cen] obtain k1 k2 where
    l1: "lazy_init mom cen p st1 h1 = (?f1, st1(p \<mapsto> ?f1), k1)"
    and l2: "lazy_init mom cen (\<pi> p) st2 h2 =
        (fresh_record mom cen (next_free h2),
         st2(\<pi> p \<mapsto> fresh_record mom cen (next_free h2)), k2)"
    and rr: "rename_record ?\<pi>' ?f1 = fresh_record mom cen (next_free h2)"
    and al': "alike ?\<pi>' ps (st1(p \<mapsto> ?f1)) k1
          (st2(\<pi> p \<mapsto> fresh_record mom cen (next_free h2))) k2"
    and ext: "\<forall>a\<in>tensors ps st1. ?\<pi>' a = \<pi> a"
    by (elim exE conjE)
  have "tensors ps (st1(p \<mapsto> ?f1)) = tensors ps st1 \<union> record_addrs ?f1"
    using p None by (rule tensors_upd)
  then have sub: "tensors ps st1 \<subseteq> tensors ps (st1(p \<mapsto> ?f1))" by simp
  have "(st1(p \<mapsto> ?f1)) p = Some ?f1" by simp
  with l1 l2 [folded rr] al' [folded rr] ext sub show ?thesis
    by (intro exI conjI)
next
  case (Some r)
  with al p have "st2 (\<pi> p) = Some (rename_record \<pi> r)" by (simp add: alike_def)
  with Some have "lazy_init mom cen p st1 h1 = (r, st1, h1)"
    "lazy_init mom cen (\<pi> p) st2 h2 = (rename_record \<pi> r, st2, h2)"
    by (simp_all add: lazy_init_def)
  with al Some show ?thesis by blast
qed

lemma alike_store:
  assumes "alike \<pi> ps st1 k1 st2 k2" and "a \<in> tensors ps st1"
  shows "alike \<pi> ps st1 (store a t k1) st2 (store (\<pi> a) t k2)"
  using assms by (auto simp: alike_def store_def inj_on_eq_iff)

lemma alike_read: "alike \<pi> ps st1 k1 st2 k2 \<Longrightarrow> a \<in> tensors ps st1 \<Longrightarrow> cells k2 (\<pi> a) = cells k1 a"
  by (simp add: alike_def)

lemma lists_alike_ext:
  assumes "lists_alike \<pi> D ls1 ls2" and "\<forall>a\<in>D. \<pi>' a = \<pi> a" and "D \<subseteq> D'"
  shows "lists_alike \<pi>' D' ls1 ls2"
proof -
  have "map \<pi>' xs = map \<pi> xs" if "set xs \<subseteq> D" for xs
    using that assms(2) by (auto intro: map_cong)
  with assms(1,3) show ?thesis by (auto simp: lists_alike_def)
qed

lemma visit_alike:
  assumes al: "alike \<pi> ps st1 h1 st2 h2" and p: "p \<in> set ps"
    and ll: "lists_alike \<pi> (tensors ps st1) ls1 ls2"
  shows "\<exists>\<pi>' e st1' k1 ls1' st2' k2 ls2'.
      visit mom cen p og (st1, h1, ls1) = (e, st1', k1, ls1')
      \<and> visit mom cen (\<pi> p) og (st2, h2, ls2) = (e, st2', k2, ls2')
      \<and> alike \<pi>' ps st1' k1 st2' k2
      \<and> (\<forall>a\<in>tensors ps st1. \<pi>' a = \<pi> a)
      \<and> tensors ps st1 \<subseteq> tensors ps st1'
      \<and> (e = None \<longrightarrow> lists_alike \<pi>' (tensors ps st1') ls1' ls2')"
proof (cases og)
  case None
  with al ll show ?thesis by auto
next
  case (Some g)
  from lazy_init_alike [OF al p, of mom cen] obtain \<pi>' r1 st1' k1 st2' k2 where
    l1: "lazy_init mom cen p st1 h1 = (r1, st1', k1)"
    and l2: "lazy_init mom cen (\<pi> p) st2 h2 = (rename_record \<pi>' r1, st2', k2)"
    and al': "alike \<pi>' ps st1' k1 st2' k2"
    and ext: "\<forall>a\<in>tensors ps st1. \<pi>' a = \<pi> a"
    and sub: "tensors ps st1 \<subseteq> tensors ps st1'"
    and r1: "st1' p = Some r1"
    by (elim exE conjE)
  let ?D' = "tensors ps st1'"
  note ll' = lists_alike_ext [OF ll ext sub]
  have rec: "a \<in> ?D'" if "a \<in> record_addrs r1" for a
    using p r1 that by (rule tensors_record [where st=st1' and p=p and r=r1])
  then have c: "step_counter r1 \<in> ?D'" and sq: "square_avg r1 \<in> ?D'"
    and mb: "\<And>b. momentum_buffer r1 = Some b \<Longrightarrow> b \<in> ?D'"
    and ga: "\<And>b. grad_avg r1 = Some b \<Longrightarrow> b \<in> ?D'"
    by (simp_all add: record_addrs_def buffer_addrs_def)
  note rd = alike_read [OF al' c]
  note bump = alike_store [OF al' c, of "map f32_succ (cells k1 (step_counter r1))"]
  consider (nomb) "0 < mom" "momentum_buffer r1 = None"
    | (noga) "\<not> (0 < mom \<and> momentum_buffer r1 = None)" "cen" "grad_avg r1 = None"
    | (ok) "\<not> (0 < mom \<and> momentum_buffer r1 = None)" "\<not> (cen \<and> grad_avg r1 = None)"
    by auto
  then show ?thesis
  proof cases
    case nomb
    then have "visit mom cen p (Some g) (st1, h1, ls1) =
        (Some (KeyError ''momentum_buffer''), st1', k1,
         ls1\<lparr>grads := grads ls1 @ [g], square_avgs := square_avgs ls1 @ [square_avg r1]\<rparr>)"
      "visit mom cen (\<pi> p) (Some g) (st2, h2, ls2) =
        (Some (KeyError ''momentum_buffer''), st2', k2,
         ls2\<lparr>grads := grads ls2 @ [g],
              square_avgs := square_avgs ls2 @ [square_avg (rename_record \<pi>' r1)]\<rparr>)"
      by (simp_all add: l1 l2 rename_record_def)
    with al' ext sub Some show ?thesis by auto
  next
    case noga
    then have "\<exists>l1' l2'. visit mom cen p (Some g) (st1, h1, ls1) =
        (Some (KeyError ''grad_avg''), st1', k1, l1')
      \<and> visit mom cen (\<pi> p) (Some g) (st2, h2, ls2) =
        (Some (KeyError ''grad_avg''), st2', k2, l2')"
      using l1 l2
      by (cases "momentum_buffer r1"; cases "0 < mom") (auto simp: rename_record_def Let_def)
    with al' ext sub Some show ?thesis by auto
  next
    case ok
    let ?l1 = "push mom cen g r1 ls1"
    let ?l2 = "push mom cen g (rename_record \<pi>' r1) ls2"
    from ok have k1': "(momentum_buffer r1 \<noteq> None) \<or> \<not> 0 < mom"
      "(grad_avg r1 \<noteq> None) \<or> \<not> cen" by auto
    have v1: "visit mom cen p (Some g) (st1, h1, ls1) =
        (None, st1', store (step_counter r1) (map f32_succ (cells k1 (step_counter r1))) k1, ?l1)"
      using k1' by (auto simp: l1 push_def Let_def)
    have v2: "visit mom cen (\<pi> p) (Some g) (st2, h2, ls2) =
        (None, st2', store (\<pi>' (step_counter r1))
           (map f32_succ (cells k2 (\<pi>' (step_counter r1)))) k2, ?l2)"
      using k1' by (auto simp: l2 push_def Let_def rename_record_def)
    have la: "lists_alike \<pi>' ?D' ?l1 ?l2"
      using ll' sq mb ga k1'
      by (auto simp: lists_alike_def push_def rename_record_def)
    from v1 v2 [unfolded rd] bump la ext sub Some show ?thesis by auto
  qed
qed

lemma collect_alike:
  assumes "alike \<pi> ps st1 h1 st2 h2" and "fst ` set pairs \<subseteq> set ps"
    and "lists_alike \<pi> (tensors ps st1) ls1 ls2"
  shows "\<exists>\<pi>' e st1' k1 ls1' st2' k2 ls2'.
      collect mom cen pairs (st1, h1, ls1) = (e, st1', k1, ls1')
      \<and> collect mom cen (map (\<lambda>(p, g). (\<pi> p, g)) pairs) (st2, h2, ls2) = (e, st2', k2, ls2')
      \<and> alike \<pi>' ps st1' k1 st2' k2
      \<and> (\<forall>a\<in>tensors ps st1. \<pi>' a = \<pi> a)
      \<and> tensors ps st1 \<subseteq> tensors ps st1'
      \<and> (e = None \<longrightarrow> lists_alike \<pi>' (tensors ps st1') ls1' ls2')"
  using assms
proof (induction pairs arbitrary: \<pi> st1 h1 ls1 st2 h2 ls2)
  case Nil
  then show ?case by auto
next
  case (Cons pg pairs)
  obtain p og where pg: "pg = (p, og)" by (cases pg)
  with Cons.prems(2) have p: "p \<in> set ps" and rest: "fst ` set pairs \<subseteq> set ps" by auto
  from visit_alike [OF Cons.prems(1) p Cons.prems(3), of mom cen og]
  obtain \<pi>1 e1 sa ka la sb kb lb where
    v1: "visit mom cen p og (st1, h1, ls1) = (e1, sa, ka, la)"
    and v2: "visit mom cen (\<pi> p) og (st2, h2, ls2) = (e1, sb, kb, lb)"
    and al1: "alike \<pi>1 ps sa ka sb kb"
    and ext1: "\<forall>a\<in>tensors ps st1. \<pi>1 a = \<pi> a"
    and sub1: "tensors ps st1 \<subseteq> tensors ps sa"
    and ll1: "e1 = None \<longrightarrow> lists_alike \<pi>1 (tensors ps sa) la lb"
    by (elim exE conjE)
  show ?case
  proof (cases e1)
    case (Some err)
    with v1 v2 al1 ext1 sub1 pg show ?thesis by auto
  next
    case None
    with ll1 have ll1': "lists_alike \<pi>1 (tensors ps sa) la lb" by simp
    from Cons.IH [OF al1 rest ll1']
    obtain \<pi>' e st1' k1 ls1' st2' k2 ls2' where
      c1: "collect mom cen pairs (sa, ka, la) = (e, st1', k1, ls1')"
      and c2: "collect mom cen (map (\<lambda>(p, g). (\<pi>1 p, g)) pairs) (sb, kb, lb) =
                 (e, st2', k2, ls2')"
      and al': "alike \<pi>' ps st1' k1 st2' k2"
      and ext': "\<forall>a\<in>tensors ps sa. \<pi>' a = \<pi>1 a"
      and sub': "tensors ps sa \<subseteq> tensors ps st1'"
      and ll': "e = None \<longrightarrow> lists_alike \<pi>' (tensors ps st1') ls1' ls2'"
      by (elim exE conjE)
    have "\<pi>1 q = \<pi> q" if "q \<in> set ps" for q
      using ext1 tensors_params [OF that, of st1] by blast
    with rest have same: "map (\<lambda>(p, g). (\<pi>1 p, g)) pairs = map (\<lambda>(p, g). (\<pi> p, g)) pairs"
      by (auto intro!: map_cong)
    have ext: "\<forall>a\<in>tensors ps st1. \<pi>' a = \<pi> a"
      using ext1 ext' sub1 by auto
    have sub: "tensors ps st1 \<subseteq> tensors ps st1'" using sub1 sub' by blast
    have "collect mom cen (pg # pairs) (st1, h1, ls1) = (e, st1', k1, ls1')"
      using v1 c1 None pg by simp
    moreover have "collect mom cen (map (\<lambda>(p, g). (\<pi> p, g)) (pg # pairs)) (st2, h2, ls2) =
        (e, st2', k2, ls2')"
      using v2 c2 None pg same by simp
    ultimately show ?thesis using al' ext sub ll' by blast
  qed
qed

lemma step_alike:
  assumes same: "same_up_to_renaming \<pi> u1 h1 u2 h2"
    and s1: "step u1 gs h1 = (e1, u1', h1')" and s2: "step u2 gs h2 = (e2, u2', h2')"
  shows "e2 = e1 \<and> (\<exists>\<pi>'. same_up_to_renaming \<pi>' u1' h1' u2' h2'
            \<and> (\<forall>a\<in>tensors (params u1) (state u1). \<pi>' a = \<pi> a))"
proof (cases "length (params u1) = length gs")
  case False
  with same have "length (params u2) \<noteq> length gs" "length (params u2) = length (params u1)"
    by (simp_all add: same_up_to_renaming_def)
  with False s1 s2 same show ?thesis by (auto simp: step_def)
next
  case True
  let ?ps = "params u1" and ?mom = "momentum (defaults u1)" and ?cen = "centered u1"
  let ?ls0 = "\<lparr>grads = [], square_avgs = [], grad_avgs = [], momentum_buffer_list = []\<rparr>"
  from same have cfg: "defaults u2 = defaults u1" "centered u2 = centered u1"
    and ps2: "params u2 = map \<pi> ?ps"
    and al: "alike \<pi> ?ps (state u1) h1 (state u2) h2"
    by (simp_all add: same_up_to_renaming_def)
  from True ps2 have len2: "length (params u2) = length gs" by simp
  have sub: "fst ` set (zip ?ps gs) \<subseteq> set ?ps" by (auto dest: set_zip_leftD)
  have ll0: "lists_alike \<pi> (tensors ?ps (state u1)) ?ls0 ?ls0" by (simp add: lists_alike_def)
  from collect_alike [OF al sub ll0, of ?mom ?cen]
  obtain \<pi>' e st1' k1 ls1' st2' k2 ls2' where
    c1: "collect ?mom ?cen (zip ?ps gs) (state u1, h1, ?ls0) = (e, st1', k1, ls1')"
    and c2: "collect ?mom ?cen (map (\<lambda>(p, g). (\<pi> p, g)) (zip ?ps gs)) (state u2, h2, ?ls0) =
               (e, st2', k2, ls2')"
    and al': "alike \<pi>' ?ps st1' k1 st2' k2"
    and ext: "\<forall>a\<in>tensors ?ps (state u1). \<pi>' a = \<pi> a"
    and sub': "tensors ?ps (state u1) \<subseteq> tensors ?ps st1'"
    and ll': "e = None \<longrightarrow> lists_alike \<pi>' (tensors ?ps st1') ls1' ls2'"
    by (elim exE conjE)
  have zipmap: "map (\<lambda>(p, g). (\<pi> p, g)) (zip ?ps gs) = zip (params u2) gs"
    by (simp add: ps2 zip_map1)
  note c2' = c2 [unfolded zipmap]
  have "\<pi>' q = \<pi> q" if "q \<in> set ?ps" for q
    using ext tensors_params [OF that, of "state u1"] by blast
  then have ps2': "params u2 = map \<pi>' ?ps" using ps2 by (auto intro!: map_cong)
  show ?thesis
  proof (cases e)
    case (Some err)
    from s1 True c1 Some have r1: "e1 = Some err" "u1' = u1\<lparr>state := st1'\<rparr>" "h1' = k1"
      by (simp_all add: step_def)
    from s2 len2 c2' Some cfg have r2: "e2 = Some err" "u2' = u2\<lparr>state := st2'\<rparr>" "h2' = k2"
      by (simp_all add: step_def)
    have "same_up_to_renaming \<pi>' u1' h1' u2' h2'"
      using cfg ps2' al' by (simp add: same_up_to_renaming_def r1 r2)
    with r1 r2 ext show ?thesis by blast
  next
    case None
    let ?D = "tensors ?ps st1'"
    from ll' None have la: "lists_alike \<pi>' ?D ls1' ls2'" by simp
    then have lists: "grads ls2' = grads ls1'" "square_avgs ls2' = map \<pi>' (square_avgs ls1')"
      "grad_avgs ls2' = map \<pi>' (grad_avgs ls1')"
      "momentum_buffer_list ls2' = map \<pi>' (momentum_buffer_list ls1')"
      and inD: "set (square_avgs ls1') \<subseteq> ?D" "set (grad_avgs ls1') \<subseteq> ?D"
        "set (momentum_buffer_list ls1') \<subseteq> ?D"
      by (simp_all add: lists_alike_def)
    from al' have inj: "inj_on \<pi>' ?D" and ag: "agree \<pi>' ?D k1 k2"
      and st: "\<forall>p\<in>set ?ps. st2' (\<pi>' p) = map_option (rename_record \<pi>') (st1' p)"
      and bd: "\<forall>a\<in>?D. a < next_free k1 \<and> \<pi>' a < next_free k2"
      by (simp_all add: alike_def agree_def)
    have psD: "set ?ps \<subseteq> ?D" by (auto intro: tensors_params)
    let ?cfg = "\<lparr>lr = lr (defaults u1), alpha = alpha (defaults u1), eps = eps (defaults u1),
       weight_decay = weight_decay (defaults u1), momentum = ?mom\<rparr>"
    obtain ek kk where k: "rmsprop_from 0 ?ps (grads ls1') (square_avgs ls1') (grad_avgs ls1')
        (momentum_buffer_list ls1') ?cfg ?cen k1 = (ek, kk)"
      by (cases "rmsprop_from 0 ?ps (grads ls1') (square_avgs ls1') (grad_avgs ls1')
        (momentum_buffer_list ls1') ?cfg ?cen k1")
    from rmsprop_from_mirror [OF inj psD inD, of 0 "grads ls1'" ?cfg ?cen k1 k2] k
    have k2: "rmsprop_from 0 (params u2) (grads ls2') (square_avgs ls2') (grad_avgs ls2')
        (momentum_buffer_list ls2') ?cfg ?cen k2 = (ek, mirror \<pi>' ?D kk k2)"
      by (simp add: ps2' lists mirror_self [OF inj ag])
    from s1 True c1 None k have r1: "e1 = ek" "u1' = u1\<lparr>state := st1'\<rparr>" "h1' = kk"
      by (simp_all add: step_def rmsprop_def)
    from s2 len2 c2' None k2 cfg
    have r2: "e2 = ek" "u2' = u2\<lparr>state := st2'\<rparr>" "h2' = mirror \<pi>' ?D kk k2"
      by (simp_all add: step_def rmsprop_def)
    have "only_at (set ?ps \<union> set (square_avgs ls1') \<union> set (grad_avgs ls1')
          \<union> set (momentum_buffer_list ls1')) k1 kk"
      using rmsprop_from_only_at [of ?ps "square_avgs ls1'" "grad_avgs ls1'"
          "momentum_buffer_list ls1'" k1 0 "grads ls1'" ?cfg ?cen] k
      by simp
    then have nf: "next_free kk = next_free k1" by (simp add: only_at_def)
    have "alike \<pi>' ?ps st1' kk st2' (mirror \<pi>' ?D kk k2)"
      unfolding alike_def using inj st bd nf by (simp add: mirror_read)
    then have "same_up_to_renaming \<pi>' u1' h1' u2' h2'"
      using cfg ps2' by (simp add: same_up_to_renaming_def r1 r2)
    with r1 r2 ext show ?thesis by blast
  qed
qed

lemma same_values:
  assumes same: "same_up_to_renaming \<pi> u1 h1 u2 h2"
  shows "length (params u2) = length (params u1)
     \<and> (\<forall>i<length (params u1).
          cells h2 (params u2 ! i) = cells h1 (params u1 ! i)
          \<and> state_values u2 h2 (params u2 ! i) = state_values u1 h1 (params u1 ! i))"
proof -
  let ?ps = "params u1"
  from same have ps2: "params u2 = map \<pi> ?ps"
    and al: "alike \<pi> ?ps (state u1) h1 (state u2) h2"
    by (simp_all add: same_up_to_renaming_def)
  from al have st: "\<And>p. p \<in> set ?ps \<Longrightarrow>
      state u2 (\<pi> p) = map_option (rename_record \<pi>) (state u1 p)"
    by (simp add: alike_def)
  note rd = alike_read [OF al]
  have "cells h2 (params u2 ! i) = cells h1 (?ps ! i)
        \<and> state_values u2 h2 (params u2 ! i) = state_values u1 h1 (?ps ! i)"
    if i: "i < length ?ps" for i
  proof -
    let ?p = "?ps ! i"
    from i have p: "?p \<in> set ?ps" by simp
    from i ps2 have p2: "params u2 ! i = \<pi> ?p" by simp
    have v: "cells h2 (\<pi> ?p) = cells h1 ?p" by (rule rd) (rule tensors_params [OF p])
    have "state_values u2 h2 (\<pi> ?p) = state_values u1 h1 ?p"
    proof (cases "state u1 ?p")
      case None
      with st [OF p] show ?thesis by (simp add: state_values_def)
    next
      case (Some r)
      have rec: "cells h2 (\<pi> a) = cells h1 a" if "a \<in> record_addrs r" for a
        by (rule rd) (rule tensors_record [where st="state u1" and p="?p" and r=r, OF p Some that])
      have "cells h2 (\<pi> (step_counter r)) = cells h1 (step_counter r)"
        "cells h2 (\<pi> (square_avg r)) = cells h1 (square_avg r)"
        "map_option (cells h2) (map_option \<pi> (momentum_buffer r)) =
           map_option (cells h1) (momentum_buffer r)"
        "map_option (cells h2) (map_option \<pi> (grad_avg r)) =
           map_option (cells h1) (grad_avg r)"
        using rec
        by (cases "momentum_buffer r"; cases "grad_avg r";
            simp add: record_addrs_def buffer_addrs_def)+
      with st [OF p] Some show ?thesis
        by (simp add: state_values_def rename_record_def)
    qed
    with v p2 show ?thesis by simp
  qed
  with ps2 show ?thesis by simp
qed

text \<open>
  C9, amended. Take two updaters with their stores that are the same up to the identity of
  their tensors, and call \<open>step\<close> on each with the same gradient values. Both calls
  raise the same exception, or none; afterwards the two updaters are again the same up to
  the identity of their tensors, and slot by slot the two parameters hold the same
  elements and have the same state: both have no record, or both have one with the same
  step counter, the same running average of squares and the same optional buffers.
  Gradients are values here, so a gradient that is itself a parameter or a state tensor is
  not covered.
\<close>

theorem step_deterministic_up_to_renaming:
  assumes "same_up_to_renaming \<pi> u1 h1 u2 h2"
    and "step u1 gs h1 = (e1, u1', h1')" and "step u2 gs h2 = (e2, u2', h2')"
  shows "e2 = e1
     \<and> (\<exists>\<pi>'. same_up_to_renaming \<pi>' u1' h1' u2' h2')
     \<and> length (params u2') = length (params u1')
     \<and> (\<forall>i<length (params u1').
          cells h2' (params u2' ! i) = cells h1' (params u1' ! i)
          \<and> state_values u2' h2' (params u2' ! i) = state_values u1' h1' (params u1' ! i))"
proof -
  from step_alike [OF assms] obtain \<pi>' where
    e: "e2 = e1" and same': "same_up_to_renaming \<pi>' u1' h1' u2' h2'"
    by (elim exE conjE)
  from same_values [OF same'] e same' show ?thesis by blast
qed

theorem step_deterministic_up_to_renaming_witness:
  "same_up_to_renaming (\<lambda>a. a + 4)
     \<lparr>defaults = \<lparr>lr = 0.01, alpha = 0.99, eps = 0.00000001,
                      weight_decay = 0, momentum = 0.9\<rparr>,
       centered = True, params = [0, 0], state = Map.empty\<rparr>
     \<lparr>cells = (\<lambda>_. [1, 1]), next_free = 1\<rparr>
     \<lparr>defaults = \<lparr>lr = 0.01, alpha = 0.99, eps = 0.00000001,
                      weight_decay = 0, momentum = 0.9\<rparr>,
       centered = True, params = [4, 4], state = Map.empty\<rparr>
     \<lparr>cells = (\<lambda>_. [1, 1]), next_free = 6\<rparr>
   \<and> (case step \<lparr>defaults = \<lparr>lr = 0.01, alpha = 0.99, eps = 0.00000001,
                                 weight_decay = 0, momentum = 0.9\<rparr>,
                  centered = True, params = [0, 0], state = Map.empty\<rparr>
             [Some [2, 0], Some [1, 1]] \<lparr>cells = (\<lambda>_. [1, 1]), next_free = 1\<rparr> of
        (e1, u1', h1') \<Rightarrow>
          (case step \<lparr>defaults = \<lparr>lr = 0.01, alpha = 0.99, eps = 0.00000001,
                                   weight_decay = 0, momentum = 0.9\<rparr>,
                    centered = True, params = [4, 4], state = Map.empty\<rparr>
               [Some [2, 0], Some [1, 1]] \<lparr>cells = (\<lambda>_. [1, 1]), next_free = 6\<rparr> of
             (e2, u2', h2') \<Rightarrow>
               e2 = e1 \<and> cells h2' 4 = cells h1' 0
               \<and> state_values u2' h2' 4 = state_values u1' h1' 0))"
proof -
  let ?cfg = "\<lparr>lr = 0.01, alpha = 0.99, eps = 0.00000001, weight_decay = 0, momentum = 0.9\<rparr>"
  let ?u1 = "\<lparr>defaults = ?cfg, centered = True, params = [0, 0::nat], state = Map.empty\<rparr>"
  let ?u2 = "\<lparr>defaults = ?cfg, centered = True, params = [4, 4::nat], state = Map.empty\<rparr>"
  let ?h1 = "\<lparr>cells = (\<lambda>_. [1, 1::real]), next_free = 1\<rparr>"
  let ?h2 = "\<lparr>cells = (\<lambda>_. [1, 1::real]), next_free = 6\<rparr>"
  let ?gs = "[Some [2, 0::real], Some [1, 1]]"
  have same: "same_up_to_renaming (\<lambda>a. a + 4) ?u1 ?h1 ?u2 ?h2"
    by (simp add: same_up_to_renaming_def alike_def tensors_def)
  obtain e1 u1' h1' where s1: "step ?u1 ?gs ?h1 = (e1, u1', h1')" by (cases "step ?u1 ?gs ?h1")
  obtain e2 u2' h2' where s2: "step ?u2 ?gs ?h2 = (e2, u2', h2')" by (cases "step ?u2 ?gs ?h2")
  from step_params [OF s1] have p1: "params u1' = [0, 0]" by simp
  from step_params [OF s2] have p2: "params u2' = [4, 4]" by simp
  from step_deterministic_up_to_renaming [OF same s1 s2]
  have e: "e2 = e1"
    and v: "\<forall>i<length (params u1').
          cells h2' (params u2' ! i) = cells h1' (params u1' ! i)
          \<and> state_values u2' h2' (params u2' ! i) = state_values u1' h1' (params u1' ! i)"
    by blast+
  from v p1 p2 have "cells h2' 4 = cells h1' 0 \<and> state_values u2' h2' 4 = state_values u1' h1' 0"
    by (auto dest: spec [where x=0])
  with e same s1 s2 show ?thesis by simp
qed

end
